theory Spec2Isabelle
  imports Main "HOL-Library.Char_ord" "HOL-Library.List_Lexorder"
begin

section \<open>UMI error-correction clustering (lib/sequence\_error.py)\<close>

text \<open>
  The class \<open>ClusterAndReducer\<close> of \<open>lib/sequence_error.py\<close> is embedded function by
  function. The source is Python 2: \<open>filter\<close> and \<open>dict.keys\<close> return lists, integers are
  unbounded, and a failed dictionary lookup, an out-of-range index, a failed assertion, a
  missing attribute and \<open>max\<close> of an empty list raise; each exception is a value of
  \<open>error\<close>, returned as \<open>Inl\<close>.

  A barcode (UMI) is a \<open>string\<close>, compared as Python compares \<open>str\<close>: byte by byte, a
  proper prefix being smaller. A dictionary that the code iterates over (the bundle, the
  adjacency dictionary) is an association list whose order of keys is the iteration
  order; the count dictionary, which is only looked up, is a map. A Python \<open>set\<close> is a
  list, read as the set of its elements in the order of iteration. Python does not
  specify the order in which a set or a dictionary built by a comprehension is
  iterated, so the model fixes one (the order of insertion); the general theorems below
  speak about membership and do not depend on that choice, and the bundles evaluated
  below to a concrete result have pairwise different counts, so that only the order in
  which a cluster lists its barcodes depends on it, not the seeds, the representatives
  or the reassignments.
\<close>

datatype error = ValueError | AssertionError nat nat | AttributeError | KeyError | IndexError

type_synonym umi = string
type_synonym 'r umi_bundle = "(umi \<times> 'r list) list"
type_synonym counts = "umi \<rightharpoonup> int"
type_synonym graph = "(umi \<times> umi list) list"

subsection \<open>Sets, comprehensions and sorting\<close>

text \<open>\<open>s.update(xs)\<close>, \<open>s.difference_update(t)\<close> and \<open>s.remove(x)\<close> of a Python set.\<close>

definition set_update :: "'a list \<Rightarrow> 'a list \<Rightarrow> 'a list" where
  "set_update s xs = fold (\<lambda>x acc. if x \<in> set acc then acc else acc @ [x]) xs s"

definition difference_update :: "'a list \<Rightarrow> 'a list \<Rightarrow> 'a list" where
  "difference_update s t = filter (\<lambda>x. x \<notin> set t) s"

definition set_remove :: "'a \<Rightarrow> 'a list \<Rightarrow> error + 'a list" where
  "set_remove x s = (if x \<in> set s then Inr (removeAll x s) else Inl KeyError)"

text \<open>A list comprehension whose condition or body may raise.\<close>

fun filter_err :: "('a \<Rightarrow> error + bool) \<Rightarrow> 'a list \<Rightarrow> error + 'a list" where
  "filter_err p [] = Inr []"
| "filter_err p (x # xs) =
     (case p x of Inl e \<Rightarrow> Inl e
      | Inr b \<Rightarrow> (case filter_err p xs of Inl e \<Rightarrow> Inl e
                 | Inr ys \<Rightarrow> Inr (if b then x # ys else ys)))"

fun map_err :: "('a \<Rightarrow> error + 'b) \<Rightarrow> 'a list \<Rightarrow> error + 'b list" where
  "map_err f [] = Inr []"
| "map_err f (x # xs) =
     (case f x of Inl e \<Rightarrow> Inl e
      | Inr y \<Rightarrow> (case map_err f xs of Inl e \<Rightarrow> Inl e | Inr ys \<Rightarrow> Inr (y # ys)))"

text \<open>
  \<open>sorted(xs, key=lambda x: counts[x], reverse=True)\<close>. Python's sort is stable, and with
  \<open>reverse=True\<close> it reverses the list, sorts it ascending and reverses the result, so
  that elements of equal key keep their original order. The keys are computed for every
  element first: a barcode missing from \<open>counts\<close> raises \<open>KeyError\<close>.
\<close>

definition sorted_reverse :: "('a \<Rightarrow> int) \<Rightarrow> 'a list \<Rightarrow> 'a list" where
  "sorted_reverse key xs = rev (sort_key key (rev xs))"

definition sorted_by_counts :: "counts \<Rightarrow> umi list \<Rightarrow> error + umi list" where
  "sorted_by_counts counts xs =
     (if list_all (\<lambda>x. counts x \<noteq> None) xs
      then Inr (sorted_reverse (\<lambda>x. the (counts x)) xs)
      else Inl KeyError)"

text \<open>\<open>xs.index(...)\<close>: the first position whose element satisfies \<open>p\<close>.\<close>

fun index_where :: "('a \<Rightarrow> bool) \<Rightarrow> 'a list \<Rightarrow> nat option" where
  "index_where p [] = None"
| "index_where p (x # xs) = (if p x then Some 0 else map_option Suc (index_where p xs))"

subsection \<open>Distance primitive\<close>

text \<open>
  Modelled from the spec: \<open>kmeans.hamming\<close> is called by the adjacency builders but
  \<open>lib/kmeans.py\<close> is not among the sources. Section 4.1 of the specification defines it
  as the count of differing positions between two equal-length sequences and leaves
  sequences of different lengths undefined; the definition counts over the common
  prefix there, and no theorem below uses it on different lengths. The calls encode
  both barcodes as UTF-8 first, which is the identity on the ASCII barcodes modelled
  here.
\<close>

definition hamming :: "string \<Rightarrow> string \<Rightarrow> int" where
  "hamming a b = int (length (filter (\<lambda>(x, y). x \<noteq> y) (zip a b)))"

subsection \<open>Compute graph methods\<close>

text \<open>
  The condition of the comprehension in \<open>_get_adj_list_directional_\<close>: \<open>and\<close> evaluates
  the count comparison only when the distance equals the threshold.
\<close>

definition adjacent_directional :: "counts \<Rightarrow> int \<Rightarrow> umi \<Rightarrow> umi \<Rightarrow> error + bool" where
  "adjacent_directional counts threshold umi umi2 =
     (if hamming umi umi2 = threshold then
        (case counts umi of None \<Rightarrow> Inl KeyError
         | Some c \<Rightarrow> (case counts umi2 of None \<Rightarrow> Inl KeyError
                     | Some c2 \<Rightarrow> Inr (c \<ge> (c2 * 2) - 1)))
      else Inr False)"

definition get_adj_list_directional :: "umi list \<Rightarrow> counts \<Rightarrow> int \<Rightarrow> error + graph" where
  "get_adj_list_directional umis counts threshold =
     map_err (\<lambda>umi. case filter_err (adjacent_directional counts threshold umi) umis of
                      Inl e \<Rightarrow> Inl e | Inr adj \<Rightarrow> Inr (umi, adj)) umis"

definition get_adj_list_kmeans :: "umi list \<Rightarrow> counts \<Rightarrow> int \<Rightarrow> error + graph" where
  "get_adj_list_kmeans umis counts threshold =
     Inr (map (\<lambda>umi. (umi, filter (\<lambda>umi2. hamming umi umi2 = threshold) umis)) umis)"

subsection \<open>Utility functions\<close>

text \<open>
  The \<open>while\<close> loop of \<open>breadth_first_search\<close> over the three sets \<open>searched\<close>, \<open>found\<close>
  and \<open>queue\<close>; \<open>(list(queue))[0]\<close> is the first element of the queue in iteration order,
  and \<open>adj_list[node]\<close> raises \<open>KeyError\<close> for a node that is not a key.
\<close>

function bfs_loop :: "graph \<Rightarrow> umi list \<Rightarrow> umi list \<Rightarrow> umi list \<Rightarrow> error + umi list" where
  "bfs_loop adj_list searched found [] = Inr found"
| "bfs_loop adj_list searched found (node # rest) =
     (case map_of adj_list node of
        None \<Rightarrow> Inl KeyError
      | Some adj \<Rightarrow>
          bfs_loop adj_list (set_update searched [node]) (set_update found adj)
            (difference_update (set_update (node # rest) adj) (set_update searched [node])))"
  by pat_completeness auto

termination bfs_loop
proof (relation "measures [\<lambda>(adj_list, searched, found, queue). card (fst ` set adj_list - set searched),
                          \<lambda>(adj_list, searched, found, queue). if set queue \<inter> set searched = {} then 0 else 1]",
       goal_cases)
  case 1
  then show ?case by simp
next
  case (2 adj_list searched found node rest adj)
  have upd: "\<And>(s :: umi list) xs. set (set_update s xs) = set s \<union> set xs"
  proof -
    fix s xs :: "umi list"
    show "set (set_update s xs) = set s \<union> set xs"
      unfolding set_update_def by (induction xs arbitrary: s) auto
  qed
  have diff: "\<And>(s :: umi list) t. set (difference_update s t) = set s - set t"
    unfolding difference_update_def by auto
  have key: "node \<in> fst ` set adj_list"
    using 2 by (auto dest: map_of_SomeD intro: rev_image_eqI)
  show ?case
  proof (cases "node \<in> set searched")
    case True
    then have "insert node (set searched) = set searched" by auto
    with True show ?thesis by (auto simp: upd diff)
  next
    case False
    have "fst ` set adj_list - insert node (set searched) \<subset> fst ` set adj_list - set searched"
      using key False by auto
    then have "card (fst ` set adj_list - insert node (set searched))
                 < card (fst ` set adj_list - set searched)"
      by (intro psubset_card_mono) auto
    then show ?thesis by (simp add: upd)
  qed
qed

definition breadth_first_search :: "umi \<Rightarrow> graph \<Rightarrow> error + umi list" where
  "breadth_first_search node adj_list = bfs_loop adj_list [] [node] [node]"

subsection \<open>Methods common to both approaches\<close>

text \<open>
  The loop of \<open>get_connected_components\<close> over the nodes in descending count order, with
  the set \<open>found\<close> and the list \<open>components\<close> as its state.
\<close>

fun components_loop :: "graph \<Rightarrow> umi list \<Rightarrow> umi list \<Rightarrow> umi list list \<Rightarrow> error + umi list list" where
  "components_loop graph [] found components = Inr components"
| "components_loop graph (node # nodes) found components =
     (if node \<notin> set found then
        (case breadth_first_search node graph of
           Inl e \<Rightarrow> Inl e
         | Inr component \<Rightarrow>
             components_loop graph nodes (set_update found component) (components @ [component]))
      else components_loop graph nodes found components)"

definition get_connected_components :: "umi list \<Rightarrow> graph \<Rightarrow> counts \<Rightarrow> error + umi list list" where
  "get_connected_components umis graph counts =
     (case sorted_by_counts counts (map fst graph) of
        Inl e \<Rightarrow> Inl e
      | Inr nodes \<Rightarrow> components_loop graph nodes [] [])"

text \<open>
  \<open>get_best\<close>: \<open>list(cluster)[0]\<close> for a cluster of one barcode, else the head of the
  cluster sorted by descending count; \<open>sorted_nodes[0]\<close> raises \<open>IndexError\<close> for the
  empty cluster.
\<close>

definition get_best :: "umi list \<Rightarrow> counts \<Rightarrow> error + umi" where
  "get_best cluster counts =
     (if length cluster = 1 then Inr (hd cluster)
      else (case sorted_by_counts counts cluster of
              Inl e \<Rightarrow> Inl e
            | Inr sorted_nodes \<Rightarrow>
                (case sorted_nodes of [] \<Rightarrow> Inl IndexError | best # _ \<Rightarrow> Inr best)))"

text \<open>
  The comprehension of \<open>reduce_clusters\<close>,
  \<open>[(read, parent_umi) for umi in cluster if umi != parent_umi for read in bundle[umi]]\<close>,
  and the loop over the clusters around it.
\<close>

fun cluster_reads :: "'r umi_bundle \<Rightarrow> umi \<Rightarrow> umi list \<Rightarrow> error + ('r \<times> umi) list" where
  "cluster_reads bundle parent_umi [] = Inr []"
| "cluster_reads bundle parent_umi (umi # cluster) =
     (if umi \<noteq> parent_umi then
        (case map_of bundle umi of
           None \<Rightarrow> Inl KeyError
         | Some rs \<Rightarrow>
             (case cluster_reads bundle parent_umi cluster of
                Inl e \<Rightarrow> Inl e
              | Inr reads \<Rightarrow> Inr (map (\<lambda>read. (read, parent_umi)) rs @ reads)))
      else cluster_reads bundle parent_umi cluster)"

fun reduce_loop :: "'r umi_bundle \<Rightarrow> counts \<Rightarrow> umi list list \<Rightarrow> ('r \<times> umi) list \<Rightarrow> error + ('r \<times> umi) list" where
  "reduce_loop bundle counts [] reads = Inr reads"
| "reduce_loop bundle counts (cluster # clusters) reads =
     (if length cluster > 1 then
        (case get_best cluster counts of
           Inl e \<Rightarrow> Inl e
         | Inr parent_umi \<Rightarrow>
             (case cluster_reads bundle parent_umi cluster of
                Inl e \<Rightarrow> Inl e
              | Inr new_reads \<Rightarrow> reduce_loop bundle counts clusters (reads @ new_reads)))
      else reduce_loop bundle counts clusters reads)"

definition reduce_clusters :: "'r umi_bundle \<Rightarrow> umi list list \<Rightarrow> counts \<Rightarrow> error + ('r \<times> umi) list" where
  "reduce_clusters bundle clusters counts = reduce_loop bundle counts clusters []"

subsection \<open>Post-process components methods\<close>

text \<open>
  \<open>_post_process_components_directional_\<close> mutates the sets of \<open>components\<close> in place, and
  \<open>parent_clusters\<close> holds references to these same sets. The model therefore keeps, in
  place of \<open>parent_clusters\<close>, the positions in \<open>components\<close> of the sets that \<open>filter\<close>
  selects, and reads \<open>parent_clusters[i]\<close> from the current \<open>components\<close>.
  \<open>components.index(c)\<close> is the first position holding a set equal to \<open>c\<close>, which need
  not be the position of \<open>c\<close> itself. \<open>max(cluster_reps)\<close> is the greatest of the
  representatives as strings.
\<close>

definition parent_indices :: "umi \<Rightarrow> umi list list \<Rightarrow> nat list" where
  "parent_indices umi components =
     filter (\<lambda>k. set (components ! k) \<inter> set [umi] \<noteq> {}) [0..<length components]"

definition max_list :: "'a::linorder list \<Rightarrow> 'a" where
  "max_list xs = fold max (tl xs) (hd xs)"

fun remove_loop :: "umi \<Rightarrow> nat list \<Rightarrow> nat \<Rightarrow> nat list \<Rightarrow> umi list list \<Rightarrow> error + umi list list" where
  "remove_loop umi parents index_rep [] components = Inr components"
| "remove_loop umi parents index_rep (i # is) components =
     (if i \<noteq> index_rep then
        (case index_where (\<lambda>c. set c = set (components ! (parents ! i))) components of
           None \<Rightarrow> Inl ValueError
         | Some k \<Rightarrow>
             (case set_remove umi (components ! k) of
                Inl e \<Rightarrow> Inl e
              | Inr c \<Rightarrow> remove_loop umi parents index_rep is (components[k := c])))
      else remove_loop umi parents index_rep is components)"

definition reassign_umi :: "counts \<Rightarrow> umi \<Rightarrow> umi list list \<Rightarrow> error + umi list list" where
  "reassign_umi counts umi components =
     (let parents = parent_indices umi components in
      if length parents > 1 then
        (case map_err (\<lambda>k. get_best (components ! k) counts) parents of
           Inl e \<Rightarrow> Inl e
         | Inr cluster_reps \<Rightarrow>
             (case index_where (\<lambda>r. r = max_list cluster_reps) cluster_reps of
                None \<Rightarrow> Inl ValueError
              | Some index_rep \<Rightarrow>
                  remove_loop umi parents index_rep [0..<length cluster_reps] components))
      else Inr components)"

fun post_process_components_directional :: "umi list \<Rightarrow> umi list list \<Rightarrow> graph \<Rightarrow> counts \<Rightarrow> error + umi list list" where
  "post_process_components_directional [] components adj_list counts = Inr components"
| "post_process_components_directional (umi # umis) components adj_list counts =
     (case reassign_umi counts umi components of
        Inl e \<Rightarrow> Inl e
      | Inr components' \<Rightarrow> post_process_components_directional umis components' adj_list counts)"

text \<open>
  \<open>_post_process_components_kmeans_\<close> calls \<open>kmeans.find_clusters\<close>, which is not among
  the sources; it is the parameter \<open>find_clusters\<close> here, from the restricted adjacency
  and count dictionaries and \<open>k\<close> to the list of clusters it returns. The source appends
  \<open>cluster\<close> itself, once for every element of that list.
\<close>

type_synonym find_clusters = "graph \<Rightarrow> (umi \<times> int) list \<Rightarrow> int \<Rightarrow> umi list list"

fun kmeans_loop :: "find_clusters \<Rightarrow> graph \<Rightarrow> counts \<Rightarrow> umi list list \<Rightarrow> umi list list \<Rightarrow> error + umi list list" where
  "kmeans_loop find_clusters adj_list counts [] new_components = Inr new_components"
| "kmeans_loop find_clusters adj_list counts (cluster # components) new_components =
     (if length cluster = 1 then
        kmeans_loop find_clusters adj_list counts components (new_components @ [cluster])
      else
        (case map_err (\<lambda>umi. case counts umi of None \<Rightarrow> Inl KeyError
                              | Some c \<Rightarrow> Inr (umi, c)) cluster of
           Inl e \<Rightarrow> Inl e
         | Inr counts_restricted \<Rightarrow>
             (case map_err (\<lambda>umi. case map_of adj_list umi of None \<Rightarrow> Inl KeyError
                                   | Some adj \<Rightarrow> Inr (umi, adj)) cluster of
                Inl e \<Rightarrow> Inl e
              | Inr adj_list_restricted \<Rightarrow>
                  kmeans_loop find_clusters adj_list counts components
                    (new_components @
                       replicate (length (find_clusters adj_list_restricted counts_restricted 1))
                         cluster))))"

definition post_process_components_kmeans :: "find_clusters \<Rightarrow> umi list \<Rightarrow> umi list list \<Rightarrow> graph \<Rightarrow> counts \<Rightarrow> error + umi list list" where
  "post_process_components_kmeans find_clusters umis components adj_list counts =
     kmeans_loop find_clusters adj_list counts components []"

subsection \<open>Initialization step and call method\<close>

text \<open>
  \<open>__init__\<close> binds the attributes \<open>get_adj_list\<close> and \<open>post_process_components\<close> to the
  methods of the chosen policy, and binds nothing for any other string; an attribute
  that was never bound is \<open>None\<close>, and reading it raises \<open>AttributeError\<close>.
\<close>

datatype policy = Directional | Kmeans

record ClusterAndReducer =
  get_adj_list :: "policy option"
  post_process_components :: "policy option"

definition init :: "string \<Rightarrow> ClusterAndReducer" where
  "init cluster_method =
     (if cluster_method = ''directional'' then
        \<lparr>get_adj_list = Some Directional, post_process_components = Some Directional\<rparr>
      else if cluster_method = ''kmeans'' then
        \<lparr>get_adj_list = Some Kmeans, post_process_components = Some Kmeans\<rparr>
      else \<lparr>get_adj_list = None, post_process_components = None\<rparr>)"

text \<open>\<open>counts = {umi: len(bundle[umi]) for umi in umis}\<close>.\<close>

definition bundle_counts :: "'r umi_bundle \<Rightarrow> counts" where
  "bundle_counts bundle = (\<lambda>umi. map_option (\<lambda>rs. int (length rs)) (map_of bundle umi))"

text \<open>
  \<open>__call__\<close> up to the post-processed clusters, and \<open>__call__\<close> itself. \<open>max\<close> of the
  empty list of lengths raises \<open>ValueError\<close>; the failed assertion (assertions are taken
  to be enabled) carries the minimum and the maximum length of its message.
\<close>

definition call_clusters :: "find_clusters \<Rightarrow> ClusterAndReducer \<Rightarrow> 'r umi_bundle \<Rightarrow> int \<Rightarrow> error + umi list list" where
  "call_clusters find_clusters self bundle threshold =
     (let umis = map fst bundle;
          len_umis = map length umis
      in if len_umis = [] then Inl ValueError
         else if Max (set len_umis) \<noteq> Min (set len_umis)
           then Inl (AssertionError (Min (set len_umis)) (Max (set len_umis)))
         else
           let counts = bundle_counts bundle in
           (case get_adj_list self of
              None \<Rightarrow> Inl AttributeError
            | Some adj_policy \<Rightarrow>
                (case (case adj_policy of
                         Directional \<Rightarrow> get_adj_list_directional umis counts threshold
                       | Kmeans \<Rightarrow> get_adj_list_kmeans umis counts threshold) of
                   Inl e \<Rightarrow> Inl e
                 | Inr adj_list \<Rightarrow>
                     (case get_connected_components umis adj_list counts of
                        Inl e \<Rightarrow> Inl e
                      | Inr clusters \<Rightarrow>
                          (case post_process_components self of
                             None \<Rightarrow> Inl AttributeError
                           | Some Directional \<Rightarrow>
                               post_process_components_directional umis clusters adj_list counts
                           | Some Kmeans \<Rightarrow>
                               post_process_components_kmeans find_clusters umis clusters
                                 adj_list counts)))))"

definition call :: "find_clusters \<Rightarrow> ClusterAndReducer \<Rightarrow> 'r umi_bundle \<Rightarrow> int \<Rightarrow> error + ('r \<times> umi) list" where
  "call find_clusters self bundle threshold =
     (case call_clusters find_clusters self bundle threshold of
        Inl e \<Rightarrow> Inl e
      | Inr clusters \<Rightarrow> reduce_clusters bundle clusters (bundle_counts bundle))"

text \<open>
  A value of the parameter \<open>find_clusters\<close>, which closes the instances of the theorems
  below: it returns the barcodes it is given as one cluster. None of these instances
  reaches the call of \<open>find_clusters\<close>.
\<close>

definition single_cluster :: find_clusters where
  "single_cluster adj_list counts k = [map fst adj_list]"

section \<open>Notions used to state the claims\<close>

text \<open>
  The adjacency list of a node in an adjacency dictionary (empty for a node that is not a
  key), the directed edges of the dictionary, the nodes reachable from a node along
  edges in their direction, and two properties of a dictionary: every adjacent node is a
  key, and every edge has its reverse.
\<close>

definition adj_of :: "graph \<Rightarrow> umi \<Rightarrow> umi list" where
  "adj_of g a = (case map_of g a of None \<Rightarrow> [] | Some adj \<Rightarrow> adj)"

definition edges :: "graph \<Rightarrow> (umi \<times> umi) set" where
  "edges g = {(a, b). b \<in> set (adj_of g a)}"

definition reachable :: "graph \<Rightarrow> umi \<Rightarrow> umi set" where
  "reachable g a = {b. (a, b) \<in> (edges g)\<^sup>*}"

definition closed_graph :: "graph \<Rightarrow> bool" where
  "closed_graph g \<longleftrightarrow> (\<forall>a\<in>fst ` set g. set (adj_of g a) \<subseteq> fst ` set g)"

definition symmetric_graph :: "graph \<Rightarrow> bool" where
  "symmetric_graph g \<longleftrightarrow> (\<forall>a\<in>fst ` set g. \<forall>b\<in>set (adj_of g a). a \<in> set (adj_of g b))"

text \<open>
  The dictionaries that the two adjacency builders return for barcodes that all have a
  count.
\<close>

definition directional_graph :: "umi list \<Rightarrow> counts \<Rightarrow> int \<Rightarrow> graph" where
  "directional_graph umis counts threshold =
     map (\<lambda>umi. (umi, filter (\<lambda>umi2. hamming umi umi2 = threshold \<and>
                                  the (counts umi) \<ge> (the (counts umi2) * 2) - 1) umis)) umis"

definition kmeans_graph :: "umi list \<Rightarrow> int \<Rightarrow> graph" where
  "kmeans_graph umis threshold =
     map (\<lambda>umi. (umi, filter (\<lambda>umi2. hamming umi umi2 = threshold) umis)) umis"

text \<open>The number of clusters of a list that hold a barcode.\<close>

definition memberships :: "umi \<Rightarrow> umi list list \<Rightarrow> nat" where
  "memberships u clusters = length (filter (\<lambda>c. u \<in> set c) clusters)"

text \<open>
  A set after \<open>remove(umi)\<close> calls: it lost no barcode other than \<open>umi\<close> and gained
  none.
\<close>

definition only_removed :: "umi \<Rightarrow> umi list \<Rightarrow> umi list \<Rightarrow> bool" where
  "only_removed umi c' c \<longleftrightarrow> set c' \<subseteq> set c \<and> set c - {umi} \<subseteq> set c' \<and> length c' \<le> length c"

declare bfs_loop.simps [simp del]

section \<open>Sets as lists\<close>

lemma set_set_update [simp]: "set (set_update s xs) = set s \<union> set xs"
  unfolding set_update_def by (induction xs arbitrary: s) auto

lemma set_difference_update [simp]: "set (difference_update s t) = set s - set t"
  unfolding difference_update_def by auto

lemma distinct_set_update: "distinct s \<Longrightarrow> distinct (set_update s xs)"
  unfolding set_update_def by (induction xs arbitrary: s) auto

section \<open>Breadth-first search\<close>

text \<open>
  In a dictionary whose adjacent nodes are all keys, the search from a key raises no
  error and returns exactly the nodes reachable from it along edges in their direction,
  each once.
\<close>

lemma map_of_key: "a \<in> fst ` set g \<Longrightarrow> \<exists>adj. map_of g a = Some adj"
  by (metis domD dom_map_of_conv_image_fst)

lemma adj_of_Some: "map_of g a = Some adj \<Longrightarrow> adj_of g a = adj"
  by (simp add: adj_of_def)

lemma bfs_loop_reachable:
  assumes "closed_graph g"
    and "set queue \<subseteq> fst ` set g"
    and "set found = set searched \<union> set queue"
    and "seed \<in> set found"
    and "set found \<subseteq> reachable g seed"
    and "\<forall>s\<in>set searched. set (adj_of g s) \<subseteq> set found"
  shows "\<exists>res. bfs_loop g searched found queue = Inr res \<and> set res = reachable g seed"
  using assms
proof (induction g searched found queue rule: bfs_loop.induct)
  case (1 g searched found)
  have "reachable g seed \<subseteq> set found"
  proof
    fix b assume "b \<in> reachable g seed"
    then have "(seed, b) \<in> (edges g)\<^sup>*" by (simp add: reachable_def)
    then show "b \<in> set found"
    proof (induction rule: rtrancl_induct)
      case base
      show ?case using 1 by simp
    next
      case (step y z)
      then have "z \<in> set (adj_of g y)" by (simp add: edges_def)
      with step 1 show ?case by auto
    qed
  qed
  with 1 show ?case by (auto simp: bfs_loop.simps)
next
  case (2 g searched found node rest)
  from "2.prems"(2) have key: "node \<in> fst ` set g" by simp
  from map_of_key [OF key] obtain adj where adj: "map_of g node = Some adj" ..
  then have adj_of: "adj_of g node = adj" by (rule adj_of_Some)
  have adj_keys: "set adj \<subseteq> fst ` set g"
    using "2.prems"(1) key adj_of unfolding closed_graph_def by blast
  have node_found: "node \<in> set found" using "2.prems"(3) by simp
  then have node_reach: "(seed, node) \<in> (edges g)\<^sup>*"
    using "2.prems"(5) by (auto simp: reachable_def)
  have adj_reach: "set adj \<subseteq> reachable g seed"
  proof
    fix b assume "b \<in> set adj"
    then have "(node, b) \<in> edges g" by (simp add: edges_def adj_of)
    with node_reach show "b \<in> reachable g seed" by (auto simp: reachable_def)
  qed
  have "\<exists>res. bfs_loop g (set_update searched [node]) (set_update found adj)
            (difference_update (set_update (node # rest) adj) (set_update searched [node])) = Inr res
          \<and> set res = reachable g seed"
  proof (rule "2.IH" [OF adj])
    show "closed_graph g" by (rule "2.prems"(1))
    show "set (difference_update (set_update (node # rest) adj) (set_update searched [node]))
            \<subseteq> fst ` set g"
      using "2.prems"(2) adj_keys by auto
    show "set (set_update found adj) =
            set (set_update searched [node]) \<union>
            set (difference_update (set_update (node # rest) adj) (set_update searched [node]))"
      unfolding set_set_update set_difference_update "2.prems"(3) by auto
    show "seed \<in> set (set_update found adj)" using "2.prems"(4) by simp
    show "set (set_update found adj) \<subseteq> reachable g seed"
      using "2.prems"(5) adj_reach by simp
    show "\<forall>s\<in>set (set_update searched [node]). set (adj_of g s) \<subseteq> set (set_update found adj)"
      using "2.prems"(6) adj_of by auto
  qed
  then show ?case by (simp add: bfs_loop.simps adj)
qed

lemma breadth_first_search_reachable:
  assumes "closed_graph g" and "node \<in> fst ` set g"
  shows "\<exists>res. breadth_first_search node g = Inr res \<and> set res = reachable g node"
  unfolding breadth_first_search_def
  by (rule bfs_loop_reachable) (use assms in \<open>auto simp: reachable_def\<close>)

lemma bfs_loop_distinct:
  "distinct found \<Longrightarrow> bfs_loop g searched found queue = Inr res \<Longrightarrow> distinct res"
  by (induction g searched found queue rule: bfs_loop.induct)
     (auto simp: bfs_loop.simps distinct_set_update split: option.splits)

lemma breadth_first_search_distinct:
  "breadth_first_search node g = Inr res \<Longrightarrow> distinct res"
  unfolding breadth_first_search_def using bfs_loop_distinct [of "[node]"] by simp

section \<open>The precondition check of the call method\<close>

subsection \<open>No later stage raises an assertion failure\<close>

lemma filter_err_no_assert:
  "(\<And>x. p x \<noteq> Inl (AssertionError a b)) \<Longrightarrow> filter_err p xs \<noteq> Inl (AssertionError a b)"
  by (induction xs) (auto split: sum.splits)

lemma map_err_no_assert:
  "(\<And>x. f x \<noteq> Inl (AssertionError a b)) \<Longrightarrow> map_err f xs \<noteq> Inl (AssertionError a b)"
  by (induction xs) (auto split: sum.splits)

lemma sorted_by_counts_no_assert: "sorted_by_counts counts xs \<noteq> Inl (AssertionError a b)"
  by (simp add: sorted_by_counts_def)

lemma get_adj_list_directional_no_assert:
  "get_adj_list_directional umis counts threshold \<noteq> Inl (AssertionError a b)"
  unfolding get_adj_list_directional_def
proof (rule map_err_no_assert)
  fix umi
  have "filter_err (adjacent_directional counts threshold umi) umis \<noteq> Inl (AssertionError a b)"
    by (rule filter_err_no_assert) (simp add: adjacent_directional_def split: option.splits)
  then show "(case filter_err (adjacent_directional counts threshold umi) umis of
          Inl e \<Rightarrow> Inl e | Inr adj \<Rightarrow> Inr (umi, adj)) \<noteq> Inl (AssertionError a b)"
    by (auto split: sum.splits)
qed

lemma bfs_loop_no_assert: "bfs_loop adj_list searched found queue \<noteq> Inl (AssertionError a b)"
  by (induction adj_list searched found queue rule: bfs_loop.induct)
     (auto simp: bfs_loop.simps split: option.splits)

lemma components_loop_no_assert:
  "components_loop graph nodes found components \<noteq> Inl (AssertionError a b)"
  by (induction graph nodes found components rule: components_loop.induct)
     (auto simp: breadth_first_search_def bfs_loop_no_assert split: sum.splits)

lemma get_connected_components_no_assert:
  "get_connected_components umis graph counts \<noteq> Inl (AssertionError a b)"
  by (auto simp: get_connected_components_def sorted_by_counts_no_assert
        components_loop_no_assert split: sum.splits)

lemma get_best_no_assert: "get_best cluster counts \<noteq> Inl (AssertionError a b)"
  by (auto simp: get_best_def sorted_by_counts_no_assert split: sum.splits list.splits)

lemma remove_loop_no_assert:
  "remove_loop umi parents index_rep is components \<noteq> Inl (AssertionError a b)"
  by (induction umi parents index_rep "is" components rule: remove_loop.induct)
     (auto simp: set_remove_def split: option.splits sum.splits if_splits)

lemma reassign_umi_no_assert: "reassign_umi counts umi components \<noteq> Inl (AssertionError a b)"
  by (auto simp: reassign_umi_def Let_def remove_loop_no_assert map_err_no_assert
        get_best_no_assert split: option.splits sum.splits)

lemma post_process_components_directional_no_assert:
  "post_process_components_directional umis components adj_list counts \<noteq> Inl (AssertionError a b)"
  by (induction umis components adj_list counts rule: post_process_components_directional.induct)
     (auto simp: reassign_umi_no_assert split: sum.splits)

lemma kmeans_loop_no_assert:
  "kmeans_loop find_clusters adj_list counts components new_components \<noteq> Inl (AssertionError a b)"
proof (induction find_clusters adj_list counts components new_components rule: kmeans_loop.induct)
  case (1 find_clusters adj_list counts new_components)
  then show ?case by simp
next
  case (2 find_clusters adj_list counts cluster components new_components)
  have c: "map_err (\<lambda>umi. case counts umi of None \<Rightarrow> Inl KeyError | Some c \<Rightarrow> Inr (umi, c)) cluster
             \<noteq> Inl (AssertionError a b)"
    by (rule map_err_no_assert) (simp split: option.splits)
  have g: "map_err (\<lambda>umi. case map_of adj_list umi of None \<Rightarrow> Inl KeyError | Some adj \<Rightarrow> Inr (umi, adj)) cluster
             \<noteq> Inl (AssertionError a b)"
    by (rule map_err_no_assert) (simp split: option.splits)
  from 2 c g show ?case by (auto split: sum.splits)
qed

lemma cluster_reads_no_assert:
  "cluster_reads bdl parent_umi cluster \<noteq> Inl (AssertionError a b)"
  by (induction cluster) (auto split: option.splits sum.splits)

lemma reduce_loop_no_assert:
  "reduce_loop bdl counts clusters reads \<noteq> Inl (AssertionError a b)"
  by (induction bdl counts clusters reads rule: reduce_loop.induct)
     (auto simp: get_best_no_assert cluster_reads_no_assert split: sum.splits)

lemma Min_Max_differ:
  assumes "finite S" "S \<noteq> {}"
  shows "Max S \<noteq> Min S \<longleftrightarrow> (\<exists>x\<in>S. \<exists>y\<in>S. x \<noteq> (y::nat))"
proof
  assume "Max S \<noteq> Min S"
  moreover have "Max S \<in> S" "Min S \<in> S" using assms by auto
  ultimately show "\<exists>x\<in>S. \<exists>y\<in>S. x \<noteq> y" by blast
next
  assume "\<exists>x\<in>S. \<exists>y\<in>S. x \<noteq> y"
  then obtain x y where xy: "x \<in> S" "y \<in> S" "x \<noteq> y" by blast
  have "Min S \<le> x" "x \<le> Max S" "Min S \<le> y" "y \<le> Max S" using assms xy by auto
  with xy show "Max S \<noteq> Min S" by auto
qed

lemma call_clusters_length_check:
  "call_clusters find_clusters self bundle threshold = Inl (AssertionError lo hi) \<longleftrightarrow>
     bundle \<noteq> [] \<and> lo = Min (set (map (length \<circ> fst) bundle)) \<and> hi = Max (set (map (length \<circ> fst) bundle))
       \<and> lo \<noteq> hi"
proof (cases "bundle = []")
  case True
  then show ?thesis by (simp add: call_clusters_def)
next
  case False
  show ?thesis
  proof (cases "Max (set (map (length \<circ> fst) bundle)) \<noteq> Min (set (map (length \<circ> fst) bundle))")
    case True
    with False show ?thesis by (auto simp: call_clusters_def Let_def)
  next
    case uniform: False
    have "call_clusters find_clusters self bundle threshold \<noteq> Inl (AssertionError lo hi)"
      using False uniform
      by (auto simp: call_clusters_def Let_def get_adj_list_directional_no_assert
            get_adj_list_kmeans_def get_connected_components_no_assert
            post_process_components_directional_no_assert post_process_components_kmeans_def
            kmeans_loop_no_assert
          split: option.splits sum.splits policy.splits)
    with uniform show ?thesis by auto
  qed
qed

subsection \<open>Claims about the check\<close>

text \<open>
  Claim C6. A call on a bundle whose barcodes have at least two different lengths raises
  the failed assertion, which carries the minimum and the maximum of the observed
  lengths; it does so for every constructed object, also one with no policy bound, whose
  adjacency step would raise by itself, and for every threshold: the check comes before
  all other work. Conversely a call raises the assertion failure only on such a bundle,
  so a bundle of one barcode length never triggers it.
\<close>

theorem length_mismatch_raises_first:
  "call find_clusters self bundle threshold = Inl (AssertionError lo hi) \<longleftrightarrow>
     lo = Min (set (map (length \<circ> fst) bundle)) \<and> hi = Max (set (map (length \<circ> fst) bundle)) \<and>
     (\<exists>u\<in>set (map fst bundle). \<exists>v\<in>set (map fst bundle). length u \<noteq> length v)"
proof -
  have "call find_clusters self bundle threshold = Inl (AssertionError lo hi) \<longleftrightarrow>
          call_clusters find_clusters self bundle threshold = Inl (AssertionError lo hi)"
    by (auto simp: call_def reduce_clusters_def reduce_loop_no_assert split: sum.splits)
  moreover have "Max (set (map (length \<circ> fst) bundle)) \<noteq> Min (set (map (length \<circ> fst) bundle)) \<longleftrightarrow>
      (\<exists>u\<in>set (map fst bundle). \<exists>v\<in>set (map fst bundle). length u \<noteq> length v)"
    if "bundle \<noteq> []"
    using Min_Max_differ [of "set (map (length \<circ> fst) bundle)"] that by auto
  ultimately show ?thesis
    unfolding call_clusters_length_check by (cases "bundle = []") auto
qed

theorem length_mismatch_raises_first_witness:
  "call single_cluster (init ''median'') [(''AC'', [1::nat]), (''ACG'', [2, 3])] 1
     = Inl (AssertionError 2 3)"
  by (subst length_mismatch_raises_first) force

text \<open>
  Claim C9. A call on the empty bundle does not return the empty list of reassignments:
  the maximum of the empty list of lengths raises \<open>ValueError\<close> in the check itself, for
  every constructed object and threshold, before any clustering.
\<close>

theorem empty_bundle_raises:
  "call find_clusters self [] threshold = Inl ValueError \<and>
   call find_clusters self [] threshold \<noteq> Inr []"
  by (simp add: call_def call_clusters_def)

text \<open>
  Claim C10 as stated fails: an object constructed with an unknown method raises the
  failed assertion, not a missing-attribute error, on a bundle of mixed barcode lengths.
\<close>

theorem unknown_method_mixed_lengths_counterexample:
  "call single_cluster (init ''adjacency'') [(''ACGT'', [1::nat]), (''AC'', [2])] 1
     = Inl (AssertionError 2 4) \<and>
   call single_cluster (init ''adjacency'') [(''ACGT'', [1::nat]), (''AC'', [2])] 1
     \<noteq> Inl AttributeError"
  by code_simp

text \<open>
  Claim C10, amended. Constructing the object with a method string other than
  \<open>directional\<close> and \<open>kmeans\<close> binds neither policy attribute, and every later call fails
  without producing a reassignment: with the missing-attribute error when the bundle
  passes the length check, and with the error of the length check itself (on the empty
  bundle and on a bundle of mixed lengths) otherwise.
\<close>

theorem unknown_method_every_call_fails:
  assumes "cluster_method \<noteq> ''directional''" and "cluster_method \<noteq> ''kmeans''"
  shows "get_adj_list (init cluster_method) = None \<and>
         post_process_components (init cluster_method) = None \<and>
         call find_clusters (init cluster_method) bundle threshold =
           (if bundle = [] then Inl ValueError
            else if Max (set (map (length \<circ> fst) bundle)) \<noteq> Min (set (map (length \<circ> fst) bundle))
              then Inl (AssertionError (Min (set (map (length \<circ> fst) bundle)))
                                       (Max (set (map (length \<circ> fst) bundle))))
            else Inl AttributeError)"
  using assms by (auto simp: init_def call_def call_clusters_def Let_def)

theorem unknown_method_every_call_fails_witness:
  "call single_cluster (init ''adjacency'') [(''ACGT'', [1::nat]), (''ACGA'', [2])] 1
     = Inl AttributeError"
  using unknown_method_every_call_fails [of "''adjacency''" single_cluster
          "[(''ACGT'', [1::nat]), (''ACGA'', [2])]" 1]
  by simp

section \<open>Concrete bundles\<close>

text \<open>
  Claim C7. With the directional policy and threshold 1, the bundle with 10 reads under
  AAAA (the reads 0 to 9), one read under AAAT (the read 10) and 8 reads under TTTT (the
  reads 11 to 18) gives exactly one reassignment, of the read 10 to AAAA, in whichever
  order the bundle holds its three barcodes.
\<close>

theorem directional_example:
  "call find_clusters (init ''directional'')
     [(''AAAA'', [0..<10::nat]), (''AAAT'', [10]), (''TTTT'', [11..<19])] 1 = Inr [(10, ''AAAA'')] \<and>
   call find_clusters (init ''directional'')
     [(''AAAA'', [0..<10::nat]), (''TTTT'', [11..<19]), (''AAAT'', [10])] 1 = Inr [(10, ''AAAA'')] \<and>
   call find_clusters (init ''directional'')
     [(''AAAT'', [10]), (''AAAA'', [0..<10::nat]), (''TTTT'', [11..<19])] 1 = Inr [(10, ''AAAA'')] \<and>
   call find_clusters (init ''directional'')
     [(''AAAT'', [10]), (''TTTT'', [11..<19]), (''AAAA'', [0..<10::nat])] 1 = Inr [(10, ''AAAA'')] \<and>
   call find_clusters (init ''directional'')
     [(''TTTT'', [11..<19]), (''AAAA'', [0..<10::nat]), (''AAAT'', [10])] 1 = Inr [(10, ''AAAA'')] \<and>
   call find_clusters (init ''directional'')
     [(''TTTT'', [11..<19]), (''AAAT'', [10]), (''AAAA'', [0..<10::nat])] 1 = Inr [(10, ''AAAA'')]"
  by code_simp

text \<open>
  Claim C1 fails on the code. In the bundle with 10 reads under AAAA, 5 reads under AATT
  and one read under AAAT, at threshold 1, AAAT is adjacent from AAAA and from AATT, and
  the two components found both hold it. Their representatives are AAAA, with 10 reads,
  and AATT, with 5. \<open>max(cluster_reps)\<close> compares the representatives as strings, so
  AAAT stays with AATT, the greater string, and is removed from the component of AAAA,
  the representative with the highest count; its read is reassigned to AATT.
\<close>

theorem directional_keeps_greatest_string:
  "bundle_counts [(''AAAA'', [0..<10::nat]), (''AATT'', [10..<15]), (''AAAT'', [15])] ''AAAA'' = Some 10 \<and>
   bundle_counts [(''AAAA'', [0..<10::nat]), (''AATT'', [10..<15]), (''AAAT'', [15])] ''AATT'' = Some 5 \<and>
   get_connected_components [''AAAA'', ''AATT'', ''AAAT'']
     [(''AAAA'', [''AAAT'']), (''AATT'', [''AAAT'']), (''AAAT'', [])]
     (bundle_counts [(''AAAA'', [0..<10::nat]), (''AATT'', [10..<15]), (''AAAT'', [15])])
     = Inr [[''AAAA'', ''AAAT''], [''AATT'', ''AAAT'']] \<and>
   call_clusters find_clusters (init ''directional'')
     [(''AAAA'', [0..<10::nat]), (''AATT'', [10..<15]), (''AAAT'', [15])] 1
     = Inr [[''AAAA''], [''AATT'', ''AAAT'']] \<and>
   call find_clusters (init ''directional'')
     [(''AAAA'', [0..<10::nat]), (''AATT'', [10..<15]), (''AAAT'', [15])] 1
     = Inr [(15, ''AATT'')]"
  by code_simp

section \<open>The representative of a cluster\<close>

lemma sorted_le_last: "sorted ys \<Longrightarrow> y \<in> set ys \<Longrightarrow> y \<le> last ys"
  by (induction ys) auto

lemma last_filter_sat: "zs \<noteq> [] \<Longrightarrow> P (last zs) \<Longrightarrow> last (filter P zs) = last zs"
  by (induction zs) (auto simp: filter_empty_conv split: if_splits)

lemma hd_sorted_reverse:
  assumes "xs \<noteq> []"
  shows "\<exists>pre post. xs = pre @ hd (sorted_reverse key xs) # post \<and>
           (\<forall>x\<in>set pre. key x < key (hd (sorted_reverse key xs))) \<and>
           (\<forall>x\<in>set post. key x \<le> key (hd (sorted_reverse key xs)))"
proof -
  define zs where "zs = sort_key key (rev xs)"
  define b where "b = last zs"
  have zs_ne: "zs \<noteq> []" using assms by (metis zs_def length_0_conv length_sort length_rev)
  have b_hd: "hd (sorted_reverse key xs) = b"
    by (simp add: sorted_reverse_def b_def zs_def hd_rev)
  have set_zs: "set zs = set xs" by (simp add: zs_def)
  have b_in: "b \<in> set xs" using zs_ne set_zs b_def last_in_set by metis
  have max: "key x \<le> key b" if "x \<in> set xs" for x
  proof -
    have "sorted (map key zs)" by (simp add: zs_def)
    moreover have "key x \<in> set (map key zs)" using that set_zs by auto
    ultimately have "key x \<le> last (map key zs)" by (rule sorted_le_last)
    then show ?thesis using zs_ne by (simp add: b_def last_map)
  qed
  have "filter (\<lambda>y. key y = key b) zs = rev (filter (\<lambda>y. key y = key b) xs)"
    by (simp add: zs_def sort_key_stable rev_filter)
  moreover have "last (filter (\<lambda>y. key y = key b) zs) = b"
    using zs_ne by (simp add: last_filter_sat b_def)
  ultimately have b_first: "b = hd (filter (\<lambda>y. key y = key b) xs)"
    by (metis last_rev)
  from b_in have "\<exists>x\<in>set xs. key x = key b" by blast
  then obtain pre x post where split: "xs = pre @ x # post" "key x = key b"
      "\<forall>y\<in>set pre. key y \<noteq> key b"
    using split_list_first_prop [of xs "\<lambda>y. key y = key b"] by blast
  then have "filter (\<lambda>y. key y = key b) xs = x # filter (\<lambda>y. key y = key b) post"
    by simp
  with b_first have "x = b" by simp
  with split max show ?thesis unfolding b_hd
    by (intro exI [of _ pre] exI [of _ post]) (auto simp: less_le)
qed

lemma sorted_by_counts_Inr:
  "\<forall>x\<in>set xs. counts x \<noteq> None \<Longrightarrow>
     sorted_by_counts counts xs = Inr (sorted_reverse (\<lambda>x. the (counts x)) xs)"
  by (simp add: sorted_by_counts_def list_all_iff)

text \<open>
  Claim C3 as stated fails. The cluster of ACGA and ACGT, both with 3 reads, has the
  representative ACGT when the set is iterated as ACGT, ACGA and the representative ACGA
  when it is iterated as ACGA, ACGT: the tie is broken by the iteration order of the set,
  and no rule on the barcodes themselves, lexicographic or other, gives both answers.
\<close>

theorem get_best_tie_counterexample:
  "get_best [''ACGT'', ''ACGA''] (map_of [(''ACGA'', 3), (''ACGT'', 3)]) = Inr ''ACGT'' \<and>
   get_best [''ACGA'', ''ACGT''] (map_of [(''ACGA'', 3), (''ACGT'', 3)]) = Inr ''ACGA'' \<and>
   set [''ACGT'', ''ACGA''] = set [''ACGA'', ''ACGT''] \<and> ''ACGA'' < ''ACGT''"
  by code_simp

text \<open>
  Claim C3, amended. For every non-empty cluster whose barcodes all have a count,
  \<open>get_best\<close> returns a member of the cluster whose count is greater than or equal to
  that of every member; when several barcodes share the maximal count, it returns the
  one that comes first in the iteration order of the cluster: every barcode before it
  has a strictly smaller count.
\<close>

theorem get_best_first_of_highest_count:
  assumes "cluster \<noteq> []" and "\<forall>x\<in>set cluster. counts x \<noteq> None"
  shows "\<exists>best pre post. get_best cluster counts = Inr best \<and> cluster = pre @ best # post \<and>
           (\<forall>x\<in>set cluster. the (counts x) \<le> the (counts best)) \<and>
           (\<forall>x\<in>set pre. the (counts x) < the (counts best))"
proof (cases "length cluster = 1")
  case True
  then obtain b where "cluster = [b]" by (cases cluster) auto
  then have "get_best cluster counts = Inr b \<and> cluster = [] @ b # []"
    by (simp add: get_best_def)
  then show ?thesis using \<open>cluster = [b]\<close> by fastforce
next
  case False
  define key where "key = (\<lambda>x. the (counts x))"
  define best where "best = hd (sorted_reverse key cluster)"
  obtain pre post where split: "cluster = pre @ best # post"
      "\<forall>x\<in>set pre. key x < key best" "\<forall>x\<in>set post. key x \<le> key best"
    using hd_sorted_reverse [OF assms(1), of key] unfolding best_def by blast
  have "sorted_reverse key cluster \<noteq> []"
    using assms(1) by (simp add: sorted_reverse_def) (metis length_0_conv length_sort length_rev)
  then have "get_best cluster counts = Inr best"
    using False assms(2)
    by (auto simp: get_best_def sorted_by_counts_Inr key_def best_def split: list.splits)
  moreover have "\<forall>x\<in>set cluster. key x \<le> key best"
    using split by (subst split(1)) (auto simp: less_le)
  ultimately show ?thesis using split unfolding key_def by blast
qed

theorem get_best_first_of_highest_count_witness:
  "\<exists>best pre post.
     get_best [''ACGA'', ''ACGT'', ''ACGG''] (map_of [(''ACGA'', 2::int), (''ACGT'', 5), (''ACGG'', 5)])
       = Inr best \<and>
     [''ACGA'', ''ACGT'', ''ACGG''] = pre @ best # post \<and>
     (\<forall>x\<in>set [''ACGA'', ''ACGT'', ''ACGG''].
        the (map_of [(''ACGA'', 2::int), (''ACGT'', 5), (''ACGG'', 5)] x)
          \<le> the (map_of [(''ACGA'', 2::int), (''ACGT'', 5), (''ACGG'', 5)] best)) \<and>
     (\<forall>x\<in>set pre. the (map_of [(''ACGA'', 2::int), (''ACGT'', 5), (''ACGG'', 5)] x)
          < the (map_of [(''ACGA'', 2::int), (''ACGT'', 5), (''ACGG'', 5)] best))"
  by (rule get_best_first_of_highest_count) simp_all

section \<open>The adjacency graph\<close>

lemma filter_err_pure: "\<forall>x\<in>set xs. p x = Inr (q x) \<Longrightarrow> filter_err p xs = Inr (filter q xs)"
  by (induction xs) auto

lemma map_err_pure: "\<forall>x\<in>set xs. f x = Inr (g x) \<Longrightarrow> map_err f xs = Inr (map g xs)"
  by (induction xs) auto

lemma map_of_graph: "u \<in> set umis \<Longrightarrow> map_of (map (\<lambda>u. (u, f u)) umis) u = Some (f u)"
  by (induction umis) auto

lemma hamming_self: "hamming a a = 0"
  unfolding hamming_def by (induction a) auto

lemma get_adj_list_directional_Inr:
  assumes "\<forall>u\<in>set umis. counts u \<noteq> None"
  shows "get_adj_list_directional umis counts threshold =
           Inr (map (\<lambda>umi. (umi, filter (\<lambda>umi2. hamming umi umi2 = threshold \<and>
                                        the (counts umi) \<ge> (the (counts umi2) * 2) - 1) umis)) umis)"
  unfolding get_adj_list_directional_def
proof (rule map_err_pure, rule ballI)
  fix umi assume "umi \<in> set umis"
  then have "\<forall>umi2\<in>set umis. adjacent_directional counts threshold umi umi2 =
      Inr (hamming umi umi2 = threshold \<and> the (counts umi) \<ge> (the (counts umi2) * 2) - 1)"
    using assms by (fastforce simp: adjacent_directional_def split: option.splits)
  then have "filter_err (adjacent_directional counts threshold umi) umis =
      Inr (filter (\<lambda>umi2. hamming umi umi2 = threshold \<and>
                       the (counts umi) \<ge> (the (counts umi2) * 2) - 1) umis)"
    by (rule filter_err_pure)
  then show "(case filter_err (adjacent_directional counts threshold umi) umis of
          Inl e \<Rightarrow> Inl e | Inr adj \<Rightarrow> Inr (umi, adj)) =
         Inr (umi, filter (\<lambda>umi2. hamming umi umi2 = threshold \<and>
                       the (counts umi) \<ge> (the (counts umi2) * 2) - 1) umis)"
    by simp
qed

text \<open>
  Claim C5 as stated fails in its second half. The comprehension has no test
  \<open>umi != umi2\<close>, a barcode is at distance 0 from itself, and a count \<open>c\<close> of at most 1
  satisfies \<open>c >= 2 * c - 1\<close>: at threshold 0 the only barcode of a bundle with one read
  is in its own adjacency list.
\<close>

theorem self_adjacency_counterexample:
  "get_adj_list_directional [''ACGT''] (bundle_counts [(''ACGT'', [0::nat])]) 0
     = Inr [(''ACGT'', [''ACGT''])]"
  by code_simp

text \<open>
  Claim C5, amended. Under the directional policy, for barcodes that all have a count,
  the adjacency dictionary has the barcodes as its keys, and \<open>B2\<close> is in the adjacency
  list of \<open>B\<close> if and only if \<open>B2\<close> is one of the barcodes, the distance from \<open>B\<close> to
  \<open>B2\<close> equals the threshold and the count of \<open>B\<close> is at least twice the count of
  \<open>B2\<close> minus one, also for \<open>B2 = B\<close>. So a barcode is adjacent to itself exactly
  when the threshold is 0 and its count is at most 1, and never at another threshold.
\<close>

theorem directional_adjacency:
  assumes "\<forall>u\<in>set umis. counts u \<noteq> None"
  shows "\<exists>adj_list. get_adj_list_directional umis counts threshold = Inr adj_list \<and>
           map fst adj_list = umis \<and>
           (\<forall>B\<in>set umis. \<exists>adj. map_of adj_list B = Some adj \<and>
              (\<forall>B2. B2 \<in> set adj \<longleftrightarrow>
                 B2 \<in> set umis \<and> hamming B B2 = threshold \<and>
                 the (counts B) \<ge> 2 * the (counts B2) - 1) \<and>
              (B \<in> set adj \<longleftrightarrow> threshold = 0 \<and> the (counts B) \<le> 1))"
proof -
  let ?adj = "\<lambda>umi. filter (\<lambda>umi2. hamming umi umi2 = threshold \<and>
                                  the (counts umi) \<ge> (the (counts umi2) * 2) - 1) umis"
  have "get_adj_list_directional umis counts threshold = Inr (map (\<lambda>umi. (umi, ?adj umi)) umis)"
    using assms by (rule get_adj_list_directional_Inr)
  moreover have "map fst (map (\<lambda>umi. (umi, ?adj umi)) umis) = umis"
    by (simp add: comp_def)
  moreover have "\<exists>adj. map_of (map (\<lambda>umi. (umi, ?adj umi)) umis) B = Some adj \<and>
              (\<forall>B2. B2 \<in> set adj \<longleftrightarrow>
                 B2 \<in> set umis \<and> hamming B B2 = threshold \<and>
                 the (counts B) \<ge> 2 * the (counts B2) - 1) \<and>
              (B \<in> set adj \<longleftrightarrow> threshold = 0 \<and> the (counts B) \<le> 1)"
    if "B \<in> set umis" for B
  proof -
    have "map_of (map (\<lambda>umi. (umi, ?adj umi)) umis) B = Some (?adj B)"
      using that by (rule map_of_graph)
    moreover have "B \<in> set (?adj B) \<longleftrightarrow> threshold = 0 \<and> the (counts B) \<le> 1"
      using that by (auto simp: hamming_self)
    ultimately show ?thesis by (auto simp: mult.commute)
  qed
  ultimately show ?thesis by blast
qed

theorem directional_adjacency_witness:
  "\<exists>adj_list. get_adj_list_directional [''ACGT'', ''ACGA'']
                 (map_of [(''ACGT'', 4::int), (''ACGA'', 2)]) 1 = Inr adj_list \<and>
           map fst adj_list = [''ACGT'', ''ACGA''] \<and>
           (\<forall>B\<in>set [''ACGT'', ''ACGA'']. \<exists>adj. map_of adj_list B = Some adj \<and>
              (\<forall>B2. B2 \<in> set adj \<longleftrightarrow>
                 B2 \<in> set [''ACGT'', ''ACGA''] \<and> hamming B B2 = 1 \<and>
                 the (map_of [(''ACGT'', 4::int), (''ACGA'', 2)] B)
                    \<ge> 2 * the (map_of [(''ACGT'', 4::int), (''ACGA'', 2)] B2) - 1) \<and>
              (B \<in> set adj \<longleftrightarrow> (1::int) = 0 \<and> the (map_of [(''ACGT'', 4::int), (''ACGA'', 2)] B) \<le> 1))"
  by (rule directional_adjacency) simp

section \<open>Connected components\<close>

lemma reachable_keys:
  assumes "closed_graph g" and "seed \<in> fst ` set g"
  shows "reachable g seed \<subseteq> fst ` set g"
proof
  fix b assume "b \<in> reachable g seed"
  then have "(seed, b) \<in> (edges g)\<^sup>*" by (simp add: reachable_def)
  then show "b \<in> fst ` set g"
  proof (induction rule: rtrancl_induct)
    case base
    show ?case by (rule assms(2))
  next
    case (step y z)
    then have "z \<in> set (adj_of g y)" by (simp add: edges_def)
    with step(3) assms(1) show ?case unfolding closed_graph_def by blast
  qed
qed

lemma reachable_trans: "b \<in> reachable g a \<Longrightarrow> reachable g b \<subseteq> reachable g a"
  by (auto simp: reachable_def)

lemma reachable_self: "a \<in> reachable g a"
  by (simp add: reachable_def)

lemma symmetric_edges: "symmetric_graph g \<Longrightarrow> sym (edges g)"
proof (rule symI)
  fix a b assume s: "symmetric_graph g" and "(a, b) \<in> edges g"
  then have b: "b \<in> set (adj_of g a)" by (simp add: edges_def)
  then have "map_of g a \<noteq> None" by (cases "map_of g a") (auto simp: adj_of_def)
  then have "a \<in> fst ` set g" by (metis domIff dom_map_of_conv_image_fst)
  with s b have "a \<in> set (adj_of g b)" unfolding symmetric_graph_def by blast
  then show "(b, a) \<in> edges g" by (simp add: edges_def)
qed

lemma reachable_sym: "symmetric_graph g \<Longrightarrow> b \<in> reachable g a \<Longrightarrow> a \<in> reachable g b"
  using sym_rtrancl [OF symmetric_edges] by (auto simp: reachable_def dest: symD)

lemma memberships_append:
  "memberships u (cs @ [c]) = memberships u cs + (if u \<in> set c then 1 else 0)"
  by (simp add: memberships_def)

lemma memberships_pos: "0 < memberships u cs \<longleftrightarrow> (\<exists>c\<in>set cs. u \<in> set c)"
  by (auto simp: memberships_def filter_empty_conv)

lemma components_loop_props:
  assumes "closed_graph g" and "set nodes \<subseteq> fst ` set g"
    and "set found = (\<Union>c\<in>set comps. set c)"
    and "\<forall>c\<in>set comps. distinct c \<and> (\<exists>seed\<in>fst ` set g. set c = reachable g seed)"
  shows "\<exists>cs. components_loop g nodes found comps = Inr cs \<and>
          set nodes \<union> set found \<subseteq> (\<Union>c\<in>set cs. set c) \<and>
          (\<forall>c\<in>set cs. distinct c \<and> (\<exists>seed\<in>fst ` set g. set c = reachable g seed)) \<and>
          (symmetric_graph g \<longrightarrow> (\<forall>u. memberships u comps \<le> 1) \<longrightarrow> (\<forall>u. memberships u cs \<le> 1))"
  using assms(2-4)
proof (induction nodes arbitrary: found comps)
  case Nil
  then show ?case by auto
next
  case (Cons node nodes)
  from Cons.prems(1) have node_key: "node \<in> fst ` set g" and nodes: "set nodes \<subseteq> fst ` set g"
    by auto
  show ?case
  proof (cases "node \<in> set found")
    case True
    from Cons.IH [OF nodes Cons.prems(2) Cons.prems(3)]
    obtain cs where cs: "components_loop g nodes found comps = Inr cs"
        "set nodes \<union> set found \<subseteq> (\<Union>c\<in>set cs. set c)"
        "\<forall>c\<in>set cs. distinct c \<and> (\<exists>seed\<in>fst ` set g. set c = reachable g seed)"
        "symmetric_graph g \<longrightarrow> (\<forall>u. memberships u comps \<le> 1) \<longrightarrow>
           (\<forall>u. memberships u cs \<le> 1)"
      by blast
    have "components_loop g (node # nodes) found comps = Inr cs"
      using True cs(1) by simp
    moreover have "set (node # nodes) \<union> set found \<subseteq> (\<Union>c\<in>set cs. set c)"
      using True cs(2) by auto
    ultimately show ?thesis using cs(3,4) by blast
  next
    case False
    from breadth_first_search_reachable [OF assms(1) node_key]
    obtain comp where comp: "breadth_first_search node g = Inr comp"
        "set comp = reachable g node" by blast
    have dist: "distinct comp" using comp(1) by (rule breadth_first_search_distinct)
    have found': "set (set_update found comp) = (\<Union>c\<in>set (comps @ [comp]). set c)"
      using Cons.prems(2) by auto
    have comps': "\<forall>c\<in>set (comps @ [comp]).
        distinct c \<and> (\<exists>seed\<in>fst ` set g. set c = reachable g seed)"
      using Cons.prems(3) dist comp(2) node_key by auto
    from Cons.IH [OF nodes found' comps']
    obtain cs where cs: "components_loop g nodes (set_update found comp) (comps @ [comp]) = Inr cs"
        "set nodes \<union> set (set_update found comp) \<subseteq> (\<Union>c\<in>set cs. set c)"
        "\<forall>c\<in>set cs. distinct c \<and> (\<exists>seed\<in>fst ` set g. set c = reachable g seed)"
        "symmetric_graph g \<longrightarrow> (\<forall>u. memberships u (comps @ [comp]) \<le> 1) \<longrightarrow>
           (\<forall>u. memberships u cs \<le> 1)"
      by blast
    have res: "components_loop g (node # nodes) found comps = Inr cs"
      using False comp(1) cs(1) by simp
    have cover: "set (node # nodes) \<union> set found \<subseteq> (\<Union>c\<in>set cs. set c)"
      using cs(2) comp(2) reachable_self [of node g] by auto
    have once: "\<forall>u. memberships u cs \<le> 1"
      if s: "symmetric_graph g" and m: "\<forall>u. memberships u comps \<le> 1"
    proof -
      have "memberships u (comps @ [comp]) \<le> 1" for u
      proof (cases "u \<in> set comp")
        case inc: True
        have "memberships u comps = 0"
        proof (rule ccontr)
          assume "memberships u comps \<noteq> 0"
          then obtain c where c: "c \<in> set comps" "u \<in> set c"
            using memberships_pos [of u comps] by auto
          then obtain seed where seed: "set c = reachable g seed"
            using Cons.prems(3) by blast
          have "node \<in> reachable g u"
            using inc comp(2) reachable_sym [OF s] by simp
          moreover have "reachable g u \<subseteq> reachable g seed"
            using c(2) seed reachable_trans by simp
          ultimately have "node \<in> set c" using seed by auto
          with c(1) have "node \<in> set found" using Cons.prems(2) by auto
          with False show False by simp
        qed
        with inc show ?thesis by (simp add: memberships_append)
      next
        case False
        with m show ?thesis by (simp add: memberships_append)
      qed
      with cs(4) s show ?thesis by blast
    qed
    from res cover cs(3) once show ?thesis by blast
  qed
qed

lemma set_sorted_reverse: "set (sorted_reverse key xs) = set xs"
  by (simp add: sorted_reverse_def)

lemma get_connected_components_props:
  assumes "closed_graph g" and "\<forall>u\<in>fst ` set g. counts u \<noteq> None"
  shows "\<exists>cs. get_connected_components umis g counts = Inr cs \<and>
           (\<Union>c\<in>set cs. set c) = fst ` set g \<and>
           (\<forall>c\<in>set cs. distinct c \<and> (\<exists>seed\<in>fst ` set g. set c = reachable g seed)) \<and>
           (symmetric_graph g \<longrightarrow> (\<forall>u\<in>fst ` set g. memberships u cs = 1))"
proof -
  let ?nodes = "sorted_reverse (\<lambda>x. the (counts x)) (map fst g)"
  have sorted: "sorted_by_counts counts (map fst g) = Inr ?nodes"
    using assms(2) by (intro sorted_by_counts_Inr) simp
  have nodes: "set ?nodes = fst ` set g" by (simp add: set_sorted_reverse)
  have "\<exists>cs. components_loop g ?nodes [] [] = Inr cs \<and>
          set ?nodes \<union> set [] \<subseteq> (\<Union>c\<in>set cs. set c) \<and>
          (\<forall>c\<in>set cs. distinct c \<and> (\<exists>seed\<in>fst ` set g. set c = reachable g seed)) \<and>
          (symmetric_graph g \<longrightarrow> (\<forall>u. memberships u [] \<le> 1) \<longrightarrow> (\<forall>u. memberships u cs \<le> 1))"
    by (rule components_loop_props [OF assms(1)]) (simp_all add: nodes)
  then obtain cs where cs: "components_loop g ?nodes [] [] = Inr cs"
      "fst ` set g \<subseteq> (\<Union>c\<in>set cs. set c)"
      "\<forall>c\<in>set cs. distinct c \<and> (\<exists>seed\<in>fst ` set g. set c = reachable g seed)"
      "symmetric_graph g \<longrightarrow> (\<forall>u. memberships u cs \<le> 1)"
    unfolding nodes by (auto simp: memberships_def)
  have res: "get_connected_components umis g counts = Inr cs"
    by (simp add: get_connected_components_def sorted cs(1))
  have sub: "(\<Union>c\<in>set cs. set c) \<subseteq> fst ` set g"
    using cs(3) reachable_keys [OF assms(1)] by blast
  have "memberships u cs = 1" if "symmetric_graph g" "u \<in> fst ` set g" for u
  proof -
    have "0 < memberships u cs" using cs(2) that(2) memberships_pos [of u cs] by blast
    moreover have "memberships u cs \<le> 1" using cs(4) that(1) by blast
    ultimately show ?thesis by simp
  qed
  with res cs(2,3) sub show ?thesis by blast
qed

text \<open>
  Claim C4 as stated fails under the directional policy. In the bundle with 6 reads
  under ACGT, 4 under TCGA and one under ACGA, at threshold 1, ACGA is adjacent from ACGT
  and from TCGA, neither of which is reachable from the other: the two components both
  hold ACGA, so they are not disjoint.
\<close>

theorem components_overlap_counterexample:
  "get_adj_list_directional [''ACGT'', ''TCGA'', ''ACGA'']
     (bundle_counts [(''ACGT'', [0..<6::nat]), (''TCGA'', [6..<10]), (''ACGA'', [10])]) 1
     = Inr [(''ACGT'', [''ACGA'']), (''TCGA'', [''ACGA'']), (''ACGA'', [])] \<and>
   get_connected_components [''ACGT'', ''TCGA'', ''ACGA'']
     [(''ACGT'', [''ACGA'']), (''TCGA'', [''ACGA'']), (''ACGA'', [])]
     (bundle_counts [(''ACGT'', [0..<6::nat]), (''TCGA'', [6..<10]), (''ACGA'', [10])])
     = Inr [[''ACGT'', ''ACGA''], [''TCGA'', ''ACGA'']] \<and>
   memberships ''ACGA'' [[''ACGT'', ''ACGA''], [''TCGA'', ''ACGA'']] = 2"
  by code_simp

text \<open>
  Claim C4, amended. For every adjacency dictionary whose adjacent barcodes are all keys
  and whose keys all have a count, \<open>get_connected_components\<close> returns components whose
  union is the key set, each component being the set of barcodes reachable from one
  barcode along edges in their direction (an edge from \<open>B\<close> to \<open>B2\<close> makes \<open>B2\<close>
  reachable from \<open>B\<close>, and not \<open>B\<close> from \<open>B2\<close>). When every edge has its reverse, the
  components are moreover pairwise disjoint: every barcode is in exactly one of them.
\<close>

theorem components_cover_keys:
  assumes "closed_graph graph" and "\<forall>u\<in>fst ` set graph. counts u \<noteq> None"
  shows "\<exists>components. get_connected_components umis graph counts = Inr components \<and>
           (\<Union>c\<in>set components. set c) = fst ` set graph \<and>
           (\<forall>c\<in>set components. \<exists>seed\<in>fst ` set graph. set c = reachable graph seed) \<and>
           (symmetric_graph graph \<longrightarrow> (\<forall>u\<in>fst ` set graph. memberships u components = 1))"
proof -
  from get_connected_components_props [OF assms, of umis]
  obtain cs where cs: "get_connected_components umis graph counts = Inr cs"
      "(\<Union>c\<in>set cs. set c) = fst ` set graph"
      "\<forall>c\<in>set cs. distinct c \<and> (\<exists>seed\<in>fst ` set graph. set c = reachable graph seed)"
      "symmetric_graph graph \<longrightarrow> (\<forall>u\<in>fst ` set graph. memberships u cs = 1)"
    by (elim exE conjE)
  from cs(3) have "\<forall>c\<in>set cs. \<exists>seed\<in>fst ` set graph. set c = reachable graph seed"
    by simp
  with cs(1,2,4) show ?thesis by (intro exI [of _ cs] conjI)
qed

theorem components_cover_keys_witness:
  "\<exists>components.
     get_connected_components [''ACGT'', ''ACGA'', ''TTTT'']
       [(''ACGT'', [''ACGA'']), (''ACGA'', [''ACGT'']), (''TTTT'', [])]
       (map_of [(''ACGT'', 2), (''ACGA'', 2), (''TTTT'', 1)]) = Inr components \<and>
     (\<Union>c\<in>set components. set c) = {''ACGT'', ''ACGA'', ''TTTT''} \<and>
     (\<forall>u\<in>{''ACGT'', ''ACGA'', ''TTTT''}. memberships u components = 1)"
proof -
  define g :: graph where "g = [(''ACGT'', [''ACGA'']), (''ACGA'', [''ACGT'']), (''TTTT'', [])]"
  define cnt :: counts where "cnt = map_of [(''ACGT'', 2), (''ACGA'', 2), (''TTTT'', 1)]"
  have c: "closed_graph g" by (simp add: g_def closed_graph_def adj_of_def)
  have k: "\<forall>u\<in>fst ` set g. cnt u \<noteq> None" by (simp add: g_def cnt_def)
  have s: "symmetric_graph g" by (simp add: g_def symmetric_graph_def adj_of_def)
  have keys: "fst ` set g = {''ACGT'', ''ACGA'', ''TTTT''}" by (simp add: g_def)
  from components_cover_keys [OF c k, of "[''ACGT'', ''ACGA'', ''TTTT'']"]
  obtain components where cs:
    "get_connected_components [''ACGT'', ''ACGA'', ''TTTT''] g cnt = Inr components"
    "(\<Union>c\<in>set components. set c) = fst ` set g"
    "symmetric_graph g \<longrightarrow> (\<forall>u\<in>fst ` set g. memberships u components = 1)"
    by (elim exE conjE)
  from cs(3) s have "\<forall>u\<in>fst ` set g. memberships u components = 1" by (rule mp)
  with cs(1,2) show ?thesis unfolding keys unfolding g_def cnt_def
    by (intro exI [of _ components] conjI)
qed

section \<open>Directional post-processing\<close>

text \<open>
  One round of the loop of \<open>_post_process_components_directional_\<close> raises no error and
  leaves its barcode in exactly one component if it was in any, whatever the
  components are: each \<open>remove\<close> hits a component at or before the position of the
  parent it was looked up for, so the parents still to come keep the barcode, and every
  \<open>remove\<close> takes the barcode out of one more component that held it.
\<close>

lemma index_where_Some:
  "index_where p xs = Some k \<Longrightarrow> k < length xs \<and> p (xs ! k) \<and> (\<forall>j<k. \<not> p (xs ! j))"
proof (induction xs arbitrary: k)
  case Nil
  then show ?case by simp
next
  case (Cons x xs)
  show ?case
  proof (cases "p x")
    case True
    with Cons.prems show ?thesis by simp
  next
    case False
    with Cons.prems obtain k' where k': "index_where p xs = Some k'" "k = Suc k'" by auto
    from Cons.IH [OF k'(1)] False k'(2) show ?thesis by (auto simp: less_Suc_eq_0_disj)
  qed
qed

lemma index_where_exists: "\<exists>x\<in>set xs. p x \<Longrightarrow> \<exists>k. index_where p xs = Some k"
  by (induction xs) auto

lemma set_parent_indices:
  "set (parent_indices umi cs) = {k. k < length cs \<and> umi \<in> set (cs ! k)}"
  by (auto simp: parent_indices_def)

lemma sorted_parent_indices: "sorted_wrt (<) (parent_indices umi cs)"
  unfolding parent_indices_def by (rule sorted_wrt_filter) simp

lemma length_filter_nth:
  "length (filter (\<lambda>k. P (xs ! k)) [0..<length xs]) = length (filter P xs)"
proof -
  have "filter P xs = filter P (map (nth xs) [0..<length xs])" by (simp add: map_nth)
  also have "\<dots> = map (nth xs) (filter (P \<circ> nth xs) [0..<length xs])" by (simp add: filter_map)
  finally show ?thesis by (simp add: comp_def)
qed

lemma length_parent_indices: "length (parent_indices umi cs) = memberships umi cs"
  unfolding parent_indices_def memberships_def
  using length_filter_nth [of "\<lambda>c. umi \<in> set c" cs] by simp

lemma memberships_update:
  "k < length cs \<Longrightarrow>
     memberships u (cs[k := c]) + (if u \<in> set (cs ! k) then 1 else 0)
       = memberships u cs + (if u \<in> set c then 1 else 0)"
proof (induction cs arbitrary: k)
  case Nil
  then show ?case by simp
next
  case (Cons a cs)
  show ?case
  proof (cases k)
    case 0
    then show ?thesis by (simp add: memberships_def)
  next
    case (Suc k')
    with Cons.prems have "k' < length cs" by simp
    from Cons.IH [OF this] Suc show ?thesis by (simp add: memberships_def)
  qed
qed

lemma memberships_remove:
  assumes "k < length cs" and "umi \<in> set (cs ! k)"
  shows "memberships umi (cs[k := removeAll umi (cs ! k)]) + 1 = memberships umi cs"
  using memberships_update [OF assms(1), of umi "removeAll umi (cs ! k)"] assms(2) by simp

lemma memberships_cong:
  "list_all2 (\<lambda>c' c. u \<in> set c' \<longleftrightarrow> u \<in> set c) cs' cs \<Longrightarrow> memberships u cs' = memberships u cs"
  unfolding memberships_def by (induction rule: list_all2_induct) auto

lemma only_removed_refl: "list_all2 (only_removed umi) cs cs"
  by (simp add: list_all2_refl only_removed_def)

lemma only_removed_trans:
  assumes "list_all2 (only_removed umi) cs2 cs1" and "list_all2 (only_removed umi) cs1 cs0"
  shows "list_all2 (only_removed umi) cs2 cs0"
  using assms
proof (rule list_all2_trans [rotated])
  fix a b c
  assume "only_removed umi a b" and "only_removed umi b c"
  then show "only_removed umi a c" unfolding only_removed_def by auto
qed

lemma only_removed_update:
  assumes "k < length cs"
  shows "list_all2 (only_removed umi) (cs[k := removeAll umi (cs ! k)]) cs"
proof -
  have "only_removed umi (removeAll umi (cs ! k)) (cs ! k)"
    unfolding only_removed_def
    by (auto simp: removeAll_filter_not_eq intro: length_filter_le)
  with only_removed_refl [of umi cs] have
    "list_all2 (only_removed umi) (cs[k := removeAll umi (cs ! k)]) (cs[k := cs ! k])"
    by (rule list_all2_update_cong)
  then show ?thesis by simp
qed

lemma only_removed_other:
  assumes "list_all2 (only_removed umi) cs' cs" and "u \<noteq> umi"
  shows "memberships u cs' = memberships u cs"
proof (rule memberships_cong)
  show "list_all2 (\<lambda>c' c. u \<in> set c' \<longleftrightarrow> u \<in> set c) cs' cs"
    using assms(1)
  proof (rule list_all2_mono)
    fix c' c assume "only_removed umi c' c"
    then show "u \<in> set c' \<longleftrightarrow> u \<in> set c" using assms(2) unfolding only_removed_def by auto
  qed
qed

lemma remove_loop_props:
  assumes "sorted_wrt (<) parents" and "m = length parents"
  shows "i0 \<le> m \<Longrightarrow> \<forall>p\<in>set parents. p < length cs \<Longrightarrow>
         \<forall>j. i0 \<le> j \<and> j < m \<longrightarrow> umi \<in> set (cs ! (parents ! j)) \<Longrightarrow>
         \<exists>cs'. remove_loop umi parents index_rep [i0..<m] cs = Inr cs' \<and>
               list_all2 (only_removed umi) cs' cs \<and>
               memberships umi cs' + length (filter (\<lambda>j. j \<noteq> index_rep) [i0..<m])
                 = memberships umi cs"
proof (induction "m - i0" arbitrary: i0 cs)
  case 0
  then have e: "[i0..<m] = []" by simp
  show ?case unfolding e by (simp add: only_removed_refl)
next
  case (Suc n)
  then have lt: "i0 < m" by simp
  then have upt: "[i0..<m] = i0 # [Suc i0..<m]" by (rule upt_conv_Cons)
  have n: "n = m - Suc i0" using Suc.hyps(2) by simp
  have le: "Suc i0 \<le> m" using lt by simp
  show ?case
  proof (cases "i0 = index_rep")
    case True
    from Suc.hyps(1) [OF n le Suc.prems(2)] Suc.prems(3)
    obtain cs' where cs': "remove_loop umi parents index_rep [Suc i0..<m] cs = Inr cs'"
        "list_all2 (only_removed umi) cs' cs"
        "memberships umi cs' + length (filter (\<lambda>j. j \<noteq> index_rep) [Suc i0..<m])
           = memberships umi cs"
      by auto
    with True show ?thesis unfolding upt by simp
  next
    case False
    define p where "p = parents ! i0"
    have p_in: "p \<in> set parents" using lt assms(2) by (simp add: p_def)
    then have p_lt: "p < length cs" using Suc.prems(2) by blast
    have umi_p: "umi \<in> set (cs ! p)" using Suc.prems(3) lt by (simp add: p_def)
    have "\<exists>c\<in>set cs. set c = set (cs ! p)" using p_lt by (auto intro: nth_mem)
    then obtain k where k: "index_where (\<lambda>c. set c = set (cs ! p)) cs = Some k"
      using index_where_exists [of cs "\<lambda>c. set c = set (cs ! p)"] by blast
    from index_where_Some [OF k] have k_lt: "k < length cs" and k_eq: "set (cs ! k) = set (cs ! p)"
        and k_first: "\<forall>j<k. set (cs ! j) \<noteq> set (cs ! p)"
      by auto
    have k_le: "k \<le> p"
    proof (rule ccontr)
      assume "\<not> k \<le> p"
      then have "p < k" by simp
      with k_first show False by blast
    qed
    have umi_k: "umi \<in> set (cs ! k)" using umi_p k_eq by simp
    define cs1 where "cs1 = cs[k := removeAll umi (cs ! k)]"
    have len1: "\<forall>p\<in>set parents. p < length cs1" using Suc.prems(2) by (simp add: cs1_def)
    have later: "\<forall>j. Suc i0 \<le> j \<and> j < m \<longrightarrow> umi \<in> set (cs1 ! (parents ! j))"
    proof (intro allI impI)
      fix j assume j: "Suc i0 \<le> j \<and> j < m"
      then have "parents ! i0 < parents ! j"
        using sorted_wrt_nth_less [OF assms(1), of i0 j] assms(2) by simp
      then have "parents ! j \<noteq> k" using k_le by (simp add: p_def)
      then have "cs1 ! (parents ! j) = cs ! (parents ! j)" by (simp add: cs1_def)
      with Suc.prems(3) j show "umi \<in> set (cs1 ! (parents ! j))" by simp
    qed
    from Suc.hyps(1) [OF n le len1 later]
    obtain cs' where cs': "remove_loop umi parents index_rep [Suc i0..<m] cs1 = Inr cs'"
        "list_all2 (only_removed umi) cs' cs1"
        "memberships umi cs' + length (filter (\<lambda>j. j \<noteq> index_rep) [Suc i0..<m])
           = memberships umi cs1"
      by auto
    have step: "remove_loop umi parents index_rep [i0..<m] cs = Inr cs'"
      unfolding upt using False k umi_k cs'(1)
      by (simp add: p_def [symmetric] set_remove_def cs1_def)
    have "list_all2 (only_removed umi) cs1 cs"
      unfolding cs1_def using k_lt by (rule only_removed_update)
    with cs'(2) have rel: "list_all2 (only_removed umi) cs' cs" by (rule only_removed_trans)
    have "memberships umi cs1 + 1 = memberships umi cs"
      unfolding cs1_def using k_lt umi_k by (rule memberships_remove)
    with cs'(3) False have "memberships umi cs' + length (filter (\<lambda>j. j \<noteq> index_rep) [i0..<m])
           = memberships umi cs"
      unfolding upt by simp
    with step rel show ?thesis by blast
  qed
qed

lemma length_filter_neq_upt:
  "r < m \<Longrightarrow> length (filter (\<lambda>j. j \<noteq> r) [0..<m]) = m - 1"
proof (induction m)
  case 0
  then show ?case by simp
next
  case (Suc m)
  show ?case
  proof (cases "r < m")
    case True
    with Suc.IH show ?thesis by simp
  next
    case False
    with Suc.prems have "r = m" by simp
    then have "filter (\<lambda>j. j \<noteq> r) [0..<m] = [0..<m]" by (auto intro: filter_True)
    with \<open>r = m\<close> show ?thesis by simp
  qed
qed

lemma map_err_total:
  "\<forall>x\<in>set xs. \<exists>y. f x = Inr y \<Longrightarrow> \<exists>ys. map_err f xs = Inr ys \<and> length ys = length xs"
  by (induction xs) auto

lemma fold_max_in: "fold max xs (a::'a::linorder) \<in> insert a (set xs)"
  by (induction xs arbitrary: a) (auto simp: max_def)

lemma max_list_in: "xs \<noteq> [] \<Longrightarrow> max_list xs \<in> set xs"
  unfolding max_list_def using fold_max_in [of "tl xs" "hd xs"] by (cases xs) auto

lemma get_best_total:
  assumes "cluster \<noteq> []" and "\<forall>x\<in>set cluster. counts x \<noteq> None"
  shows "\<exists>best. get_best cluster counts = Inr best"
proof -
  have "sorted_reverse (\<lambda>x. the (counts x)) cluster \<noteq> []"
    using assms(1) by (simp add: sorted_reverse_def) (metis length_0_conv length_sort length_rev)
  then show ?thesis
    using assms(2) by (auto simp: get_best_def sorted_by_counts_Inr split: list.splits)
qed

lemma reassign_umi_props:
  assumes counted: "\<forall>c\<in>set cs. \<forall>x\<in>set c. counts x \<noteq> None"
  shows "\<exists>cs'. reassign_umi counts umi cs = Inr cs' \<and>
           list_all2 (only_removed umi) cs' cs \<and>
           memberships umi cs' = (if memberships umi cs = 0 then 0 else 1)"
proof (cases "length (parent_indices umi cs) > 1")
  case False
  then have "reassign_umi counts umi cs = Inr cs" by (simp add: reassign_umi_def)
  moreover have "memberships umi cs = (if memberships umi cs = 0 then 0 else 1)"
    using False by (simp add: length_parent_indices)
  ultimately show ?thesis using only_removed_refl by metis
next
  case True
  define parents where "parents = parent_indices umi cs"
  define m where "m = length parents"
  have m_gt: "1 < m" using True by (simp add: m_def parents_def)
  have parents_lt: "\<forall>p\<in>set parents. p < length cs"
    and parents_umi: "\<forall>p\<in>set parents. umi \<in> set (cs ! p)"
    by (auto simp: parents_def set_parent_indices)
  have "\<forall>k\<in>set parents. \<exists>best. get_best (cs ! k) counts = Inr best"
  proof
    fix k assume k: "k \<in> set parents"
    then have "cs ! k \<in> set cs" using parents_lt by simp
    then have "\<forall>x\<in>set (cs ! k). counts x \<noteq> None" using counted by blast
    moreover have "cs ! k \<noteq> []" using parents_umi k by auto
    ultimately show "\<exists>best. get_best (cs ! k) counts = Inr best" by (intro get_best_total)
  qed
  then obtain cluster_reps where reps:
      "map_err (\<lambda>k. get_best (cs ! k) counts) parents = Inr cluster_reps"
      "length cluster_reps = m"
    using map_err_total [of parents "\<lambda>k. get_best (cs ! k) counts"] by (auto simp: m_def)
  have "cluster_reps \<noteq> []" using reps(2) m_gt by auto
  then have "\<exists>r\<in>set cluster_reps. r = max_list cluster_reps" by (simp add: max_list_in)
  then obtain index_rep where
      idx: "index_where (\<lambda>r. r = max_list cluster_reps) cluster_reps = Some index_rep"
    using index_where_exists [of cluster_reps "\<lambda>r. r = max_list cluster_reps"] by blast
  then have idx_lt: "index_rep < m" using index_where_Some [OF idx] reps(2) by simp
  have "\<forall>j. 0 \<le> j \<and> j < m \<longrightarrow> umi \<in> set (cs ! (parents ! j))"
    using parents_umi by (simp add: m_def)
  with remove_loop_props [of parents m 0 cs umi index_rep] parents_lt
  obtain cs' where cs': "remove_loop umi parents index_rep [0..<m] cs = Inr cs'"
      "list_all2 (only_removed umi) cs' cs"
      "memberships umi cs' + length (filter (\<lambda>j. j \<noteq> index_rep) [0..<m]) = memberships umi cs"
    using sorted_parent_indices [of umi cs] by (auto simp: parents_def m_def)
  have "memberships umi cs = m" by (simp add: m_def parents_def length_parent_indices)
  with cs'(3) have "memberships umi cs' = 1"
    using length_filter_neq_upt [OF idx_lt] m_gt by simp
  moreover have "memberships umi cs \<noteq> 0" using \<open>memberships umi cs = m\<close> m_gt by simp
  moreover have "reassign_umi counts umi cs = Inr cs'"
    using True reps idx cs'(1)
    by (simp add: reassign_umi_def parents_def [symmetric] Let_def)
  ultimately show ?thesis using cs'(2) by simp
qed

lemma post_process_components_directional_props:
  assumes "\<forall>c\<in>set cs. \<forall>x\<in>set c. counts x \<noteq> None"
  shows "\<exists>cs'. post_process_components_directional umis cs adj_list counts = Inr cs' \<and>
           list_all2 (\<lambda>c' c. set c' \<subseteq> set c \<and> length c' \<le> length c) cs' cs \<and>
           (\<forall>u. memberships u cs' =
                  (if u \<in> set umis \<and> memberships u cs \<noteq> 0 then 1 else memberships u cs))"
  using assms
proof (induction umis arbitrary: cs)
  case Nil
  then show ?case by (simp add: list_all2_refl)
next
  case (Cons umi umis)
  from reassign_umi_props [OF Cons.prems, of umi]
  obtain cs1 where cs1: "reassign_umi counts umi cs = Inr cs1"
      "list_all2 (only_removed umi) cs1 cs"
      "memberships umi cs1 = (if memberships umi cs = 0 then 0 else 1)"
    by blast
  have sub1: "list_all2 (\<lambda>c' c. set c' \<subseteq> set c \<and> length c' \<le> length c) cs1 cs"
    using cs1(2) by (rule list_all2_mono) (simp add: only_removed_def)
  have counted1: "\<forall>c\<in>set cs1. \<forall>x\<in>set c. counts x \<noteq> None"
  proof (intro ballI)
    fix c x assume "c \<in> set cs1" and x: "x \<in> set c"
    then obtain k where k: "k < length cs1" "c = cs1 ! k" by (auto simp: in_set_conv_nth)
    with sub1 have "set c \<subseteq> set (cs ! k)" and "k < length cs"
      by (auto simp: list_all2_conv_all_nth)
    with x Cons.prems show "counts x \<noteq> None" by (meson nth_mem subsetD)
  qed
  from Cons.IH [OF counted1]
  obtain cs' where cs': "post_process_components_directional umis cs1 adj_list counts = Inr cs'"
      "list_all2 (\<lambda>c' c. set c' \<subseteq> set c \<and> length c' \<le> length c) cs' cs1"
      "\<forall>u. memberships u cs' =
             (if u \<in> set umis \<and> memberships u cs1 \<noteq> 0 then 1 else memberships u cs1)"
    by blast
  have res: "post_process_components_directional (umi # umis) cs adj_list counts = Inr cs'"
    using cs1(1) cs'(1) by simp
  have sub: "list_all2 (\<lambda>c' c. set c' \<subseteq> set c \<and> length c' \<le> length c) cs' cs"
    using cs'(2) sub1 by (rule list_all2_trans [rotated]) auto
  have "memberships u cs' =
          (if u \<in> set (umi # umis) \<and> memberships u cs \<noteq> 0 then 1 else memberships u cs)" for u
  proof (cases "u = umi")
    case True
    with cs1(3) cs'(3) show ?thesis by (cases "memberships umi cs = 0") auto
  next
    case False
    with cs1(2) have "memberships u cs1 = memberships u cs" by (rule only_removed_other)
    with cs'(3) False show ?thesis by simp
  qed
  with res sub show ?case by blast
qed

section \<open>The call method on a bundle that passes the check\<close>

lemma bundle_counts_key: "u \<in> fst ` set bdl \<Longrightarrow> bundle_counts bdl u \<noteq> None"
  unfolding bundle_counts_def by (metis domIff dom_map_of_conv_image_fst map_option_is_None)

lemma hamming_sym: "hamming a b = hamming b a"
proof -
  have "filter (\<lambda>(x, y). x \<noteq> y) (zip b a)
          = map (\<lambda>(x, y). (y, x)) (filter (\<lambda>(x, y). x \<noteq> y) (zip a b))"
  proof (induction a arbitrary: b)
    case Nil
    then show ?case by simp
  next
    case (Cons x a)
    then show ?case by (cases b) auto
  qed
  then show ?thesis by (simp add: hamming_def)
qed

lemma hamming_zero: "length a = length b \<Longrightarrow> hamming a b = 0 \<Longrightarrow> a = b"
  unfolding hamming_def by (induction a b rule: list_induct2) (auto split: if_splits)

text \<open>Both builders return a dictionary of the same shape.\<close>

lemma keys_filter_graph: "fst ` set (map (\<lambda>u. (u, f u)) umis) = set umis"
  by (simp add: image_image)

lemma adj_of_filter_graph:
  "adj_of (map (\<lambda>u. (u, filter (E u) umis)) umis) a
     = (if a \<in> set umis then filter (E a) umis else [])"
proof (cases "a \<in> set umis")
  case True
  then show ?thesis by (simp add: adj_of_def map_of_graph)
next
  case False
  then have "map_of (map (\<lambda>u. (u, filter (E u) umis)) umis) a = None"
    using keys_filter_graph [of "\<lambda>u. filter (E u) umis" umis] by (simp add: map_of_eq_None_iff)
  with False show ?thesis by (simp add: adj_of_def)
qed

lemma closed_filter_graph: "closed_graph (map (\<lambda>u. (u, filter (E u) umis)) umis)"
  unfolding closed_graph_def keys_filter_graph by (simp add: adj_of_filter_graph)

lemma symmetric_filter_graph:
  "(\<And>a b. E a b \<Longrightarrow> E b a) \<Longrightarrow> symmetric_graph (map (\<lambda>u. (u, filter (E u) umis)) umis)"
  unfolding symmetric_graph_def keys_filter_graph by (auto simp: adj_of_filter_graph)

lemma get_adj_list_kmeans_symmetric:
  "symmetric_graph (map (\<lambda>umi. (umi, filter (\<lambda>umi2. hamming umi umi2 = threshold) umis)) umis)"
  by (rule symmetric_filter_graph) (simp add: hamming_sym)

lemma kmeans_loop_singletons:
  "\<forall>c\<in>set comps. length c = 1 \<Longrightarrow>
     kmeans_loop find_clusters adj_list counts comps new_components = Inr (new_components @ comps)"
  by (induction comps arbitrary: new_components) auto

lemma reduce_loop_singletons:
  "\<forall>c\<in>set clusters. length c \<le> 1 \<Longrightarrow> reduce_loop bdl counts clusters reads = Inr reads"
  by (induction clusters) auto

lemma reachable_isolated:
  assumes "\<forall>a. set (adj_of g a) \<subseteq> {a}"
  shows "reachable g seed = {seed}"
proof -
  have "b = seed" if "(seed, b) \<in> (edges g)\<^sup>*" for b
    using that
  proof (induction rule: rtrancl_induct)
    case base
    show ?case by simp
  next
    case (step y z)
    then have "z \<in> set (adj_of g y)" by (simp add: edges_def)
    with assms step(3) show ?case by auto
  qed
  then show ?thesis by (auto simp: reachable_def)
qed

lemma init_directional:
  "init ''directional'' = \<lparr>get_adj_list = Some Directional, post_process_components = Some Directional\<rparr>"
  by (simp add: init_def)

lemma init_kmeans:
  "init ''kmeans'' = \<lparr>get_adj_list = Some Kmeans, post_process_components = Some Kmeans\<rparr>"
  by (simp add: init_def)

lemma Max_Min_const:
  assumes "L \<noteq> []" and "\<forall>x\<in>set L. x = (n::nat)"
  shows "Max (set L) = Min (set L)"
proof -
  have "set L = {n}" using assms by (cases L) auto
  then show ?thesis by simp
qed

lemma length_check_passes:
  assumes "bdl \<noteq> []" and "\<forall>u\<in>fst ` set bdl. \<forall>v\<in>fst ` set bdl. length u = length v"
  shows "(if map length (map fst bdl) = [] then A
          else if Max (set (map length (map fst bdl))) \<noteq> Min (set (map length (map fst bdl)))
            then B else C) = C"
proof -
  from assms(1) obtain p where p: "p \<in> set bdl" by (cases bdl) auto
  have "\<forall>x\<in>set (map length (map fst bdl)). x = length (fst p)"
  proof
    fix x assume "x \<in> set (map length (map fst bdl))"
    then obtain q where q: "q \<in> set bdl" "x = length (fst q)" by auto
    from q(1) p assms(2) have "length (fst q) = length (fst p)" by (meson imageI)
    with q(2) show "x = length (fst p)" by simp
  qed
  moreover have ne: "map length (map fst bdl) \<noteq> []" using assms(1) by simp
  ultimately have "Max (set (map length (map fst bdl))) = Min (set (map length (map fst bdl)))"
    by (intro Max_Min_const)
  with ne show ?thesis by (simp only: if_False simp_thms)
qed

lemma call_clusters_directional_eq:
  assumes "bdl \<noteq> []" and "\<forall>u\<in>fst ` set bdl. \<forall>v\<in>fst ` set bdl. length u = length v"
  shows "call_clusters find_clusters (init ''directional'') bdl threshold =
           (case get_connected_components (map fst bdl)
                   (directional_graph (map fst bdl) (bundle_counts bdl) threshold)
                   (bundle_counts bdl) of
              Inl e \<Rightarrow> Inl e
            | Inr clusters \<Rightarrow>
                post_process_components_directional (map fst bdl) clusters
                  (directional_graph (map fst bdl) (bundle_counts bdl) threshold)
                  (bundle_counts bdl))"
proof -
  have "get_adj_list_directional (map fst bdl) (bundle_counts bdl) threshold =
          Inr (directional_graph (map fst bdl) (bundle_counts bdl) threshold)"
    unfolding directional_graph_def
    by (rule get_adj_list_directional_Inr) (simp add: bundle_counts_key)
  then show ?thesis
    unfolding call_clusters_def Let_def length_check_passes [OF assms] init_directional
    by (simp split: sum.splits)
qed

lemma call_clusters_kmeans_eq:
  assumes "bdl \<noteq> []" and "\<forall>u\<in>fst ` set bdl. \<forall>v\<in>fst ` set bdl. length u = length v"
  shows "call_clusters find_clusters (init ''kmeans'') bdl threshold =
           (case get_connected_components (map fst bdl) (kmeans_graph (map fst bdl) threshold)
                   (bundle_counts bdl) of
              Inl e \<Rightarrow> Inl e
            | Inr clusters \<Rightarrow>
                kmeans_loop find_clusters (kmeans_graph (map fst bdl) threshold)
                  (bundle_counts bdl) clusters [])"
  unfolding call_clusters_def Let_def length_check_passes [OF assms] init_kmeans
    get_adj_list_kmeans_def kmeans_graph_def post_process_components_kmeans_def
  by (simp split: sum.splits)

lemma closed_directional_graph: "closed_graph (directional_graph umis counts threshold)"
  unfolding directional_graph_def by (rule closed_filter_graph)

lemma keys_directional_graph: "fst ` set (directional_graph umis counts threshold) = set umis"
  unfolding directional_graph_def by (rule keys_filter_graph)

lemma closed_kmeans_graph: "closed_graph (kmeans_graph umis threshold)"
  unfolding kmeans_graph_def by (rule closed_filter_graph)

lemma keys_kmeans_graph: "fst ` set (kmeans_graph umis threshold) = set umis"
  unfolding kmeans_graph_def by (rule keys_filter_graph)

lemma symmetric_kmeans_graph: "symmetric_graph (kmeans_graph umis threshold)"
  unfolding kmeans_graph_def by (rule get_adj_list_kmeans_symmetric)

lemma components_of_bundle:
  assumes "closed_graph g" and "fst ` set g = fst ` set bdl"
  shows "\<exists>cs. get_connected_components umis g (bundle_counts bdl) = Inr cs \<and>
           (\<Union>c\<in>set cs. set c) = fst ` set bdl \<and>
           (\<forall>c\<in>set cs. distinct c \<and> (\<exists>seed\<in>fst ` set bdl. set c = reachable g seed)) \<and>
           (symmetric_graph g \<longrightarrow> (\<forall>u\<in>fst ` set bdl. memberships u cs = 1))"
proof -
  have "\<forall>u\<in>fst ` set g. bundle_counts bdl u \<noteq> None"
    unfolding assms(2) by (simp add: bundle_counts_key)
  from get_connected_components_props [OF assms(1) this, of umis] show ?thesis
    unfolding assms(2) .
qed

text \<open>
  Under the directional policy, on a bundle that passes the check, post-processing ends
  without error, removes barcodes from the components only, and leaves every barcode of
  the bundle in exactly one returned cluster.
\<close>

lemma directional_clusters:
  assumes "bdl \<noteq> []" and "\<forall>u\<in>fst ` set bdl. \<forall>v\<in>fst ` set bdl. length u = length v"
  shows "\<exists>cs0 cs. get_connected_components (map fst bdl)
                     (directional_graph (map fst bdl) (bundle_counts bdl) threshold)
                     (bundle_counts bdl) = Inr cs0 \<and>
           call_clusters find_clusters (init ''directional'') bdl threshold = Inr cs \<and>
           list_all2 (\<lambda>c' c. set c' \<subseteq> set c \<and> length c' \<le> length c) cs cs0 \<and>
           (\<Union>c\<in>set cs. set c) = fst ` set bdl \<and>
           (\<forall>u\<in>fst ` set bdl. memberships u cs = 1)"
proof -
  let ?g = "directional_graph (map fst bdl) (bundle_counts bdl) threshold"
  have keys: "fst ` set ?g = fst ` set bdl" by (simp add: keys_directional_graph)
  from components_of_bundle [OF closed_directional_graph keys, of "map fst bdl"]
  obtain cs0 where cs0: "get_connected_components (map fst bdl) ?g (bundle_counts bdl) = Inr cs0"
      "(\<Union>c\<in>set cs0. set c) = fst ` set bdl"
    by (elim exE conjE)
  have counted: "\<forall>c\<in>set cs0. \<forall>x\<in>set c. bundle_counts bdl x \<noteq> None"
  proof (intro ballI)
    fix c x assume "c \<in> set cs0" "x \<in> set c"
    then have "x \<in> (\<Union>c\<in>set cs0. set c)" by blast
    then show "bundle_counts bdl x \<noteq> None" unfolding cs0(2) by (rule bundle_counts_key)
  qed
  from post_process_components_directional_props [OF counted, of "map fst bdl" ?g]
  obtain cs where cs:
      "post_process_components_directional (map fst bdl) cs0 ?g (bundle_counts bdl) = Inr cs"
      "list_all2 (\<lambda>c' c. set c' \<subseteq> set c \<and> length c' \<le> length c) cs cs0"
      "\<forall>u. memberships u cs =
           (if u \<in> set (map fst bdl) \<and> memberships u cs0 \<noteq> 0 then 1 else memberships u cs0)"
    by (elim exE conjE)
  have res: "call_clusters find_clusters (init ''directional'') bdl threshold = Inr cs"
    by (simp add: call_clusters_directional_eq [OF assms] cs0(1) cs(1))
  have once: "memberships u cs = 1" if "u \<in> fst ` set bdl" for u
  proof -
    have "\<exists>c\<in>set cs0. u \<in> set c" using that cs0(2) by blast
    then have "memberships u cs0 \<noteq> 0" using memberships_pos [of u cs0] by simp
    with cs(3) that show ?thesis by simp
  qed
  have "(\<Union>c\<in>set cs. set c) = fst ` set bdl"
  proof (intro equalityI subsetI)
    fix x assume "x \<in> (\<Union>c\<in>set cs. set c)"
    then obtain c where c: "c \<in> set cs" "x \<in> set c" by blast
    from c(1) obtain k where "k < length cs" "cs ! k = c" unfolding in_set_conv_nth by blast
    with c(2) have k: "k < length cs" "x \<in> set (cs ! k)" by simp_all
    with cs(2) have "k < length cs0" "set (cs ! k) \<subseteq> set (cs0 ! k)"
      by (auto simp: list_all2_conv_all_nth)
    with k(2) have "x \<in> (\<Union>c\<in>set cs0. set c)" using nth_mem by blast
    then show "x \<in> fst ` set bdl" unfolding cs0(2) .
  next
    fix x assume "x \<in> fst ` set bdl"
    then have "0 < memberships x cs" using once by simp
    then show "x \<in> (\<Union>c\<in>set cs. set c)" using memberships_pos [of x cs] by blast
  qed
  with cs0(1) res cs(2) once show ?thesis by blast
qed

text \<open>
  Under the kmeans policy the adjacency is symmetric, so the components found partition
  the barcodes of the bundle; the call returns what the loop of
  \<open>_post_process_components_kmeans_\<close> makes of these components.
\<close>

lemma kmeans_components:
  assumes "bdl \<noteq> []" and "\<forall>u\<in>fst ` set bdl. \<forall>v\<in>fst ` set bdl. length u = length v"
  shows "\<exists>cs. get_connected_components (map fst bdl) (kmeans_graph (map fst bdl) threshold)
                     (bundle_counts bdl) = Inr cs \<and>
           call_clusters find_clusters (init ''kmeans'') bdl threshold =
             kmeans_loop find_clusters (kmeans_graph (map fst bdl) threshold)
               (bundle_counts bdl) cs [] \<and>
           (\<Union>c\<in>set cs. set c) = fst ` set bdl \<and>
           (\<forall>c\<in>set cs. distinct c \<and>
              (\<exists>seed\<in>fst ` set bdl. set c = reachable (kmeans_graph (map fst bdl) threshold) seed)) \<and>
           (\<forall>u\<in>fst ` set bdl. memberships u cs = 1)"
proof -
  let ?g = "kmeans_graph (map fst bdl) threshold"
  have keys: "fst ` set ?g = fst ` set bdl" by (simp add: keys_kmeans_graph)
  from components_of_bundle [OF closed_kmeans_graph keys, of "map fst bdl"] symmetric_kmeans_graph
  obtain cs where cs: "get_connected_components (map fst bdl) ?g (bundle_counts bdl) = Inr cs"
      "(\<Union>c\<in>set cs. set c) = fst ` set bdl"
      "\<forall>c\<in>set cs. distinct c \<and> (\<exists>seed\<in>fst ` set bdl. set c = reachable ?g seed)"
      "\<forall>u\<in>fst ` set bdl. memberships u cs = 1"
    by (elim exE conjE) simp
  have "call_clusters find_clusters (init ''kmeans'') bdl threshold =
          kmeans_loop find_clusters ?g (bundle_counts bdl) cs []"
    by (simp add: call_clusters_kmeans_eq [OF assms] cs(1))
  with cs show ?thesis by (intro exI [of _ cs] conjI)
qed

lemma isolated_filter_graph:
  assumes "\<forall>u\<in>set umis. \<forall>v\<in>set umis. length u = length v"
    and "\<And>a b. E a b \<Longrightarrow> hamming a b = 0"
  shows "set (adj_of (map (\<lambda>u. (u, filter (E u) umis)) umis) a) \<subseteq> {a}"
proof
  fix b assume "b \<in> set (adj_of (map (\<lambda>u. (u, filter (E u) umis)) umis) a)"
  then have ab: "a \<in> set umis" "b \<in> set umis" "E a b"
    by (auto simp: adj_of_filter_graph split: if_splits)
  from ab(1,2) assms(1) have "length a = length b" by blast
  moreover from ab(3) have "hamming a b = 0" by (rule assms(2))
  ultimately have "a = b" by (rule hamming_zero)
  then show "b \<in> {a}" by simp
qed

lemma singleton_components:
  assumes "\<forall>a. set (adj_of g a) \<subseteq> {a}"
    and "\<forall>c\<in>set cs. distinct c \<and> (\<exists>seed\<in>K. set c = reachable g seed)"
  shows "\<forall>c\<in>set cs. length c = 1"
proof
  fix c assume "c \<in> set cs"
  with assms(2) obtain seed where "distinct c" "set c = reachable g seed" by blast
  then have "distinct c" "set c = {seed}" using reachable_isolated [OF assms(1)] by simp_all
  then have "length c = card {seed}" using distinct_card [of c] by simp
  then show "length c = 1" by simp
qed

section \<open>Threshold 0\<close>

lemma isolated_directional_graph:
  assumes "\<forall>u\<in>set umis. \<forall>v\<in>set umis. length u = length v"
  shows "set (adj_of (directional_graph umis counts 0) a) \<subseteq> {a}"
  unfolding directional_graph_def using assms by (rule isolated_filter_graph) simp

lemma isolated_kmeans_graph:
  assumes "\<forall>u\<in>set umis. \<forall>v\<in>set umis. length u = length v"
  shows "set (adj_of (kmeans_graph umis 0) a) \<subseteq> {a}"
  unfolding kmeans_graph_def using assms by (rule isolated_filter_graph) simp

lemma call_of_singletons:
  assumes "call_clusters find_clusters self bdl threshold = Inr cs"
    and "\<forall>c\<in>set cs. length c \<le> 1"
  shows "call find_clusters self bdl threshold = Inr []"
  using assms by (simp add: call_def reduce_clusters_def reduce_loop_singletons)

lemma threshold_zero_clusters:
  assumes "bdl \<noteq> []"
    and "\<forall>u\<in>fst ` set bdl. \<forall>v\<in>fst ` set bdl. length u = length v"
    and "cluster_method = ''directional'' \<or> cluster_method = ''kmeans''"
  shows "\<exists>cs. call_clusters find_clusters (init cluster_method) bdl 0 = Inr cs \<and>
              (\<forall>c\<in>set cs. length c \<le> 1)"
proof (cases "cluster_method = ''directional''")
  case True
  let ?g = "directional_graph (map fst bdl) (bundle_counts bdl) 0"
  have uniform: "\<forall>u\<in>set (map fst bdl). \<forall>v\<in>set (map fst bdl). length u = length v"
    unfolding set_map by (rule assms(2))
  have iso: "\<forall>a. set (adj_of ?g a) \<subseteq> {a}"
    by (intro allI isolated_directional_graph [OF uniform])
  from directional_clusters [OF assms(1,2), of 0 find_clusters]
  obtain cs0 cs where cs:
      "get_connected_components (map fst bdl) ?g (bundle_counts bdl) = Inr cs0"
      "call_clusters find_clusters (init ''directional'') bdl 0 = Inr cs"
      "list_all2 (\<lambda>c' c. set c' \<subseteq> set c \<and> length c' \<le> length c) cs cs0"
    by (elim exE conjE)
  have keys: "fst ` set ?g = fst ` set bdl" by (simp add: keys_directional_graph)
  from components_of_bundle [OF closed_directional_graph keys, of "map fst bdl"] cs(1)
  have "\<forall>c\<in>set cs0. distinct c \<and> (\<exists>seed\<in>fst ` set bdl. set c = reachable ?g seed)"
    by auto
  with iso have one: "\<forall>c\<in>set cs0. length c = 1" by (rule singleton_components)
  have "\<forall>c\<in>set cs. length c \<le> 1"
  proof
    fix c assume "c \<in> set cs"
    then obtain k where k: "k < length cs" "cs ! k = c" unfolding in_set_conv_nth by blast
    with cs(3) have "k < length cs0" "length c \<le> length (cs0 ! k)"
      by (auto simp: list_all2_conv_all_nth)
    with one show "length c \<le> 1" by (metis nth_mem)
  qed
  with cs(2) show ?thesis unfolding True by (intro exI [of _ cs] conjI)
next
  case False
  with assms(3) have kmeans: "cluster_method = ''kmeans''" by simp
  let ?g = "kmeans_graph (map fst bdl) 0"
  have uniform: "\<forall>u\<in>set (map fst bdl). \<forall>v\<in>set (map fst bdl). length u = length v"
    unfolding set_map by (rule assms(2))
  have iso: "\<forall>a. set (adj_of ?g a) \<subseteq> {a}"
    by (intro allI isolated_kmeans_graph [OF uniform])
  from kmeans_components [OF assms(1,2), of 0 find_clusters]
  obtain cs where cs:
      "call_clusters find_clusters (init ''kmeans'') bdl 0 =
         kmeans_loop find_clusters ?g (bundle_counts bdl) cs []"
      "\<forall>c\<in>set cs. distinct c \<and> (\<exists>seed\<in>fst ` set bdl. set c = reachable ?g seed)"
    by (elim exE conjE)
  from iso cs(2) have one: "\<forall>c\<in>set cs. length c = 1" by (rule singleton_components)
  then have "kmeans_loop find_clusters ?g (bundle_counts bdl) cs [] = Inr ([] @ cs)"
    by (rule kmeans_loop_singletons)
  with cs(1) have "call_clusters find_clusters (init ''kmeans'') bdl 0 = Inr cs" by simp
  moreover from one have "\<forall>c\<in>set cs. length c \<le> 1" by simp
  ultimately show ?thesis unfolding kmeans by (intro exI [of _ cs] conjI)
qed

text \<open>
  Claim C8 as stated fails: it is stated for every bundle, but on a bundle of mixed
  barcode lengths the call raises the failed assertion, and on the empty bundle it raises
  \<open>ValueError\<close>, at threshold 0 as at any other; neither returns the empty list.
\<close>

theorem threshold_zero_counterexample:
  "call single_cluster (init ''directional'') [(''ACGT'', [0::nat]), (''ACG'', [1])] 0
     = Inl (AssertionError 3 4) \<and>
   call single_cluster (init ''kmeans'') ([] :: nat umi_bundle) 0 = Inl ValueError"
  by code_simp

text \<open>
  Claim C8, amended. For every non-empty bundle of one barcode length, under either
  policy, the call with threshold 0 returns the empty list of reassignments, and in the
  adjacency dictionary that either builder returns no barcode is adjacent to a barcode
  other than itself.
\<close>

theorem threshold_zero_no_reassignment:
  assumes "bundle \<noteq> []"
    and "\<forall>u\<in>fst ` set bundle. \<forall>v\<in>fst ` set bundle. length u = length v"
    and "cluster_method = ''directional'' \<or> cluster_method = ''kmeans''"
  shows "call find_clusters (init cluster_method) bundle 0 = Inr [] \<and>
         (\<exists>gd gk. get_adj_list_directional (map fst bundle) (bundle_counts bundle) 0 = Inr gd \<and>
                  get_adj_list_kmeans (map fst bundle) (bundle_counts bundle) 0 = Inr gk \<and>
                  (\<forall>B B2. B2 \<in> set (adj_of gd B) \<or> B2 \<in> set (adj_of gk B) \<longrightarrow> B2 = B))"
proof
  from threshold_zero_clusters [OF assms, of find_clusters]
  obtain cs where "call_clusters find_clusters (init cluster_method) bundle 0 = Inr cs"
      "\<forall>c\<in>set cs. length c \<le> 1"
    by (elim exE conjE)
  then show "call find_clusters (init cluster_method) bundle 0 = Inr []"
    by (rule call_of_singletons)
next
  let ?gd = "directional_graph (map fst bundle) (bundle_counts bundle) 0"
  let ?gk = "kmeans_graph (map fst bundle) 0"
  have uniform: "\<forall>u\<in>set (map fst bundle). \<forall>v\<in>set (map fst bundle). length u = length v"
    unfolding set_map by (rule assms(2))
  have "get_adj_list_directional (map fst bundle) (bundle_counts bundle) 0 = Inr ?gd"
    unfolding directional_graph_def
    by (rule get_adj_list_directional_Inr) (simp add: bundle_counts_key)
  moreover have "get_adj_list_kmeans (map fst bundle) (bundle_counts bundle) 0 = Inr ?gk"
    by (simp add: get_adj_list_kmeans_def kmeans_graph_def)
  moreover have "\<forall>B B2. B2 \<in> set (adj_of ?gd B) \<or> B2 \<in> set (adj_of ?gk B) \<longrightarrow> B2 = B"
  proof (intro allI impI)
    fix B B2 assume "B2 \<in> set (adj_of ?gd B) \<or> B2 \<in> set (adj_of ?gk B)"
    then have "B2 \<in> {B}"
    proof
      assume "B2 \<in> set (adj_of ?gd B)"
      then show ?thesis by (rule subsetD [OF isolated_directional_graph [OF uniform]])
    next
      assume "B2 \<in> set (adj_of ?gk B)"
      then show ?thesis by (rule subsetD [OF isolated_kmeans_graph [OF uniform]])
    qed
    then show "B2 = B" by simp
  qed
  ultimately show "\<exists>gd gk. get_adj_list_directional (map fst bundle) (bundle_counts bundle) 0 = Inr gd \<and>
                  get_adj_list_kmeans (map fst bundle) (bundle_counts bundle) 0 = Inr gk \<and>
                  (\<forall>B B2. B2 \<in> set (adj_of gd B) \<or> B2 \<in> set (adj_of gk B) \<longrightarrow> B2 = B)"
    by (intro exI [of _ ?gd] exI [of _ ?gk] conjI)
qed

theorem threshold_zero_no_reassignment_witness:
  "call single_cluster (init ''kmeans'') [(''ACGT'', [0::nat, 1]), (''ACGA'', [2]), (''TTTT'', [])] 0 = Inr [] \<and>
   call single_cluster (init ''directional'') [(''ACGT'', [0::nat, 1]), (''ACGA'', [2]), (''TTTT'', [])] 0 = Inr []"
proof (rule conjI)
  let ?b = "[(''ACGT'', [0::nat, 1]), (''ACGA'', [2]), (''TTTT'', [])]"
  have ne: "?b \<noteq> []" by simp
  have uniform: "\<forall>u\<in>fst ` set ?b. \<forall>v\<in>fst ` set ?b. length u = length v" by simp
  have k: "''kmeans'' = ''directional'' \<or> ''kmeans'' = ''kmeans''" by simp
  have d: "''directional'' = ''directional'' \<or> ''directional'' = ''kmeans''" by simp
  from threshold_zero_no_reassignment [OF ne uniform k, of single_cluster]
  show "call single_cluster (init ''kmeans'') ?b 0 = Inr []" by (rule conjunct1)
  from threshold_zero_no_reassignment [OF ne uniform d, of single_cluster]
  show "call single_cluster (init ''directional'') ?b 0 = Inr []" by (rule conjunct1)
qed

end
